theory Spec2Isabelle
  imports Main "HOL-Library.Sublist"
begin

section \<open>The regular expressions of refactor.py\<close>

text \<open>
  The script \<^verbatim>\<open>refactor.py\<close> reads two C\# files, pushes their text through five
  calls of Python's \<^verbatim>\<open>re.sub\<close> and writes the result back. The five patterns use a
  small fragment of the regular-expression language: literal characters, the classes
  \<^verbatim>\<open>\d\<close> and \<^verbatim>\<open>[^"]\<close>, the greedy quantifier \<^verbatim>\<open>+\<close> on a class, concatenation and
  capturing groups that are not nested. The fragment is modelled as it is matched by
  Python's backtracking matcher.

  A text is a \<^typ>\<open>string\<close>: a list of characters with code points below 256. On these
  code points \<^verbatim>\<open>\d\<close> of Python 3 matches exactly the ten characters 0 to 9.
\<close>

datatype atom = Lit char | Digit | NotQuote

datatype item = One atom | Plus atom

datatype piece = Cap "item list" | Raw "item list"

datatype tok = Ref nat | Txt string

abbreviation dquote :: char where
  "dquote \<equiv> CHR 0x22"

definition isdigit :: "char \<Rightarrow> bool" where
  "isdigit c = (c \<in> set ''0123456789'')"

fun accepts :: "atom \<Rightarrow> char \<Rightarrow> bool" where
  "accepts (Lit a) c = (c = a)"
| "accepts Digit c = isdigit c"
| "accepts NotQuote c = (c \<noteq> dquote)"

text \<open>
  Backtracking into a greedy \<^verbatim>\<open>x+\<close>: the quantifier first takes the longest run of
  characters of its class, then gives them back one at a time (never going below one)
  until the rest of the pattern matches. \<open>first_down f n\<close> is the first \<open>k\<close> in
  \<open>n, n - 1, ..., 1\<close> at which \<open>f\<close> succeeds.
\<close>

fun first_down :: "(nat \<Rightarrow> 'a option) \<Rightarrow> nat \<Rightarrow> (nat \<times> 'a) option" where
  "first_down f 0 = None"
| "first_down f (Suc k) =
     (case f (Suc k) of Some x \<Rightarrow> Some (Suc k, x) | None \<Rightarrow> first_down f k)"

text \<open>
  \<open>rmatch r s\<close> matches the concatenation of the items \<open>r\<close> at the start of \<open>s\<close>, as
  \<^verbatim>\<open>re.match\<close> does. A match is reported as the list of the substrings the items
  consumed, in order.
\<close>

fun rmatch :: "item list \<Rightarrow> string \<Rightarrow> string list option" where
  "rmatch [] s = Some []"
| "rmatch (One a # r) [] = None"
| "rmatch (One a # r) (c # s) =
     (if accepts a c then map_option ((#) [c]) (rmatch r s) else None)"
| "rmatch (Plus a # r) s =
     (case first_down (\<lambda>k. rmatch r (drop k s)) (length (takeWhile (accepts a) s)) of
        None \<Rightarrow> None
      | Some (k, ps) \<Rightarrow> Some (take k s # ps))"

fun items :: "piece list \<Rightarrow> item list" where
  "items [] = []"
| "items (Cap xs # ps) = xs @ items ps"
| "items (Raw xs # ps) = xs @ items ps"

text \<open>The text of each capturing group, cut out of the substrings of a match.\<close>

fun captures :: "piece list \<Rightarrow> string list \<Rightarrow> string list" where
  "captures [] ms = []"
| "captures (Cap xs # ps) ms =
     concat (take (length xs) ms) # captures ps (drop (length xs) ms)"
| "captures (Raw xs # ps) ms = captures ps (drop (length xs) ms)"

text \<open>
  The replacement template: \<open>Ref n\<close> is the back-reference \<^verbatim>\<open>\n\<close>. Python refuses a
  template that names a group the pattern does not have before it substitutes anything;
  the templates of the script name the groups 1 and 2 of patterns with two groups.
\<close>

fun expand :: "tok list \<Rightarrow> string list \<Rightarrow> string" where
  "expand [] gs = []"
| "expand (Ref n # ts) gs =
     (if 1 \<le> n \<and> n \<le> length gs then gs ! (n - 1) else []) @ expand ts gs"
| "expand (Txt s # ts) gs = s @ expand ts gs"

text \<open>
  \<^verbatim>\<open>re.sub(pattern, repl, string)\<close>: the text is scanned from the left. Where the
  pattern matches, the match is replaced by the expanded template and the scan goes on
  behind the match; elsewhere one character is copied. An empty match (only the empty
  pattern has one in this fragment) is replaced and the next character copied.
\<close>

function re_sub :: "piece list \<Rightarrow> tok list \<Rightarrow> string \<Rightarrow> string" where
  "re_sub p repl [] =
     (case rmatch (items p) [] of
        None \<Rightarrow> []
      | Some ms \<Rightarrow> expand repl (captures p ms))"
| "re_sub p repl (c # cs) =
     (case rmatch (items p) (c # cs) of
        None \<Rightarrow> c # re_sub p repl cs
      | Some ms \<Rightarrow>
          (if concat ms = [] then expand repl (captures p ms) @ c # re_sub p repl cs
           else expand repl (captures p ms) @ re_sub p repl (drop (length (concat ms) - 1) cs)))"
  by pat_completeness auto
termination
  by (relation "measure (\<lambda>(p, repl, s). length s)") auto

text \<open>\<^verbatim>\<open>re.search\<close>: does the pattern match anywhere in the text?\<close>

fun re_search :: "piece list \<Rightarrow> string \<Rightarrow> bool" where
  "re_search p [] = (rmatch (items p) [] \<noteq> None)"
| "re_search p (c # cs) = (rmatch (items p) (c # cs) \<noteq> None \<or> re_search p cs)"

section \<open>The five substitution rules\<close>

definition lit :: "string \<Rightarrow> item list" where
  "lit w = map (\<lambda>c. One (Lit c)) w"

text \<open>\<^verbatim>\<open>(l9\d+/set-brightness)&(level=)\<close>\<close>

definition rule_brightness :: "piece list" where
  "rule_brightness =
     [Cap (lit ''l9'' @ [Plus Digit] @ lit ''/set-brightness''), Raw (lit ''&''),
      Cap (lit ''level='')]"

text \<open>\<^verbatim>\<open>(l9\d+/set-hue-saturation)&(hue=)\<close>\<close>

definition rule_hue :: "piece list" where
  "rule_hue =
     [Cap (lit ''l9'' @ [Plus Digit] @ lit ''/set-hue-saturation''), Raw (lit ''&''),
      Cap (lit ''hue='')]"

text \<open>\<^verbatim>\<open>(l9\d+/set-color-temperature)&(color_temperature=)\<close>\<close>

definition rule_color_temperature :: "piece list" where
  "rule_color_temperature =
     [Cap (lit ''l9'' @ [Plus Digit] @ lit ''/set-color-temperature''), Raw (lit ''&''),
      Cap (lit ''color_temperature='')]"

text \<open>\<^verbatim>\<open>(l9\d+/set-lighting-effect)&(lighting_effect=)\<close>\<close>

definition rule_lighting_effect :: "piece list" where
  "rule_lighting_effect =
     [Cap (lit ''l9'' @ [Plus Digit] @ lit ''/set-lighting-effect''), Raw (lit ''&''),
      Cap (lit ''lighting_effect='')]"

text \<open>\<^verbatim>\<open>(p\d+/get-[^"]+)&(start_date=)\<close>\<close>

definition rule_start_date :: "piece list" where
  "rule_start_date =
     [Cap (lit ''p'' @ [Plus Digit] @ lit ''/get-'' @ [Plus NotQuote]), Raw (lit ''&''),
      Cap (lit ''start_date='')]"

text \<open>The template \<^verbatim>\<open>\1?\2\<close> of all five calls.\<close>

definition repl12 :: "tok list" where
  "repl12 = [Ref 1, Txt ''?'', Ref 2]"

text \<open>
  The body of the loop between reading and writing: \<^verbatim>\<open>content\<close> is reassigned five
  times, each call of \<^verbatim>\<open>re.sub\<close> reading the value the call before it left.
\<close>

definition fix_content :: "string \<Rightarrow> string" where
  "fix_content content =
     (let content = re_sub rule_brightness repl12 content;
          content = re_sub rule_hue repl12 content;
          content = re_sub rule_color_temperature repl12 content;
          content = re_sub rule_lighting_effect repl12 content;
          content = re_sub rule_start_date repl12 content
      in content)"

text \<open>
  The five patterns in the order of the calls. \<open>apply_rules\<close> pushes a text through a
  list of rules from left to right, each rule reading what the one before it wrote.
\<close>

definition rules :: "piece list list" where
  "rules = [rule_brightness, rule_hue, rule_color_temperature, rule_lighting_effect,
            rule_start_date]"

definition apply_rules :: "piece list list \<Rightarrow> string \<Rightarrow> string" where
  "apply_rules rs content = foldl (\<lambda>text p. re_sub p repl12 text) content rs"

section \<open>Files and the run\<close>

text \<open>
  The script opens each file in text mode, with the platform's default encoding and
  Python's default newline handling. \<^verbatim>\<open>open\<close> raises an \<^verbatim>\<open>OSError\<close> for a file that is
  missing or may not be opened; \<^verbatim>\<open>read\<close> raises \<^verbatim>\<open>UnicodeDecodeError\<close> when the bytes
  of the file are not valid in that encoding. The script catches nothing.

  The disk of the model holds, for every file that exists, what the platform's encoding
  makes of its bytes: \<open>Undecodable\<close>, or the decoded text with the line endings as they
  are stored. Two files hold the same bytes exactly when they hold the same text. As
  everywhere in this theory a text has code points below 256 only.

  On reading, every \<^verbatim>\<open>\r\n\<close> and every lone \<^verbatim>\<open>\r\<close> of the stored text arrives as
  \<^verbatim>\<open>\n\<close>; on writing, every \<^verbatim>\<open>\n\<close> is stored as the platform's line separator
  (\<^verbatim>\<open>os.linesep\<close>). What the script writes is text it has decoded, with some ampersands
  replaced, so encoding it does not fail.
\<close>

datatype error = FileNotFoundError | PermissionError | UnicodeDecodeError

datatype stored = Undecodable | Text string

record world =
  disk :: "string \<rightharpoonup> stored"
  readable :: "string \<Rightarrow> bool"
  writable :: "string \<Rightarrow> bool"
  linesep :: string
  stdout :: string

abbreviation CR :: char where
  "CR \<equiv> CHR 0x0D"

abbreviation LF :: char where
  "LF \<equiv> CHR 0x0A"

fun universal_newlines :: "string \<Rightarrow> string" where
  "universal_newlines [] = []"
| "universal_newlines [c] = [if c = CR then LF else c]"
| "universal_newlines (c # d # cs) =
     (if c = CR \<and> d = LF then LF # universal_newlines cs
      else if c = CR then LF # universal_newlines (d # cs)
      else c # universal_newlines (d # cs))"

definition write_newlines :: "string \<Rightarrow> string \<Rightarrow> string" where
  "write_newlines sep s = concat (map (\<lambda>c. if c = LF then sep else [c]) s)"

text \<open>\<^verbatim>\<open>with open(file, 'r') as f: content = f.read()\<close>\<close>

definition read_text :: "world \<Rightarrow> string \<Rightarrow> error + string" where
  "read_text w file =
     (case disk w file of
        None \<Rightarrow> Inl FileNotFoundError
      | Some data \<Rightarrow>
          if \<not> readable w file then Inl PermissionError
          else (case data of
                  Undecodable \<Rightarrow> Inl UnicodeDecodeError
                | Text t \<Rightarrow> Inr (universal_newlines t)))"

text \<open>\<^verbatim>\<open>with open(file, 'w') as f: f.write(content)\<close>\<close>

definition write_text :: "world \<Rightarrow> string \<Rightarrow> string \<Rightarrow> error + world" where
  "write_text w file content =
     (if writable w file
      then Inr (w\<lparr>disk := (disk w)(file \<mapsto> Text (write_newlines (linesep w) content))\<rparr>)
      else Inl PermissionError)"

definition files :: "string list" where
  "files = [''TapoLightStripOperations.cs'', ''TapoPlugOperations.cs'']"

text \<open>
  The loop \<^verbatim>\<open>for file in files\<close>. An error ends it at once: the result is the world as
  the files before left it, and the error.
\<close>

fun patch_files :: "string list \<Rightarrow> world \<Rightarrow> world \<times> error option" where
  "patch_files [] w = (w, None)"
| "patch_files (file # rest) w =
     (case read_text w file of
        Inl e \<Rightarrow> (w, Some e)
      | Inr content \<Rightarrow>
          (case write_text w file (fix_content content) of
             Inl e \<Rightarrow> (w, Some e)
           | Inr w' \<Rightarrow> patch_files rest w'))"

text \<open>The whole script; the last line prints only when the loop has ended without error.\<close>

definition run :: "world \<Rightarrow> world \<times> error option" where
  "run w =
     (case patch_files files w of
        (w', Some e) \<Rightarrow> (w', Some e)
      | (w', None) \<Rightarrow> (w'\<lparr>stdout := stdout w' @ ''Fixed URL constructions'' @ [LF]\<rparr>, None))"

section \<open>Notions used in the statements and proofs\<close>

text \<open>What a substring consumed by an item looks like.\<close>

fun item_ok :: "item \<Rightarrow> string \<Rightarrow> bool" where
  "item_ok (One a) m = (length m = 1 \<and> accepts a (hd m))"
| "item_ok (Plus a) m = (m \<noteq> [] \<and> list_all (accepts a) m)"

text \<open>
  All five patterns have the form \<^verbatim>\<open>(a)&(b)\<close>. \<open>hit p s\<close> gives, for a match of such a
  pattern at the start of \<open>s\<close>, the two groups and the text behind the match.
\<close>

definition amp :: "item list \<Rightarrow> item list \<Rightarrow> piece list" where
  "amp a b = [Cap a, Raw (lit ''&''), Cap b]"

text \<open>The four light-strip patterns: \<^verbatim>\<open>(l9\d+\<close>\<open>w\<close>\<^verbatim>\<open>)&(\<close>\<open>prm\<close>\<^verbatim>\<open>)\<close>.\<close>

definition l9 :: "string \<Rightarrow> string \<Rightarrow> piece list" where
  "l9 w prm = amp (lit ''l9'' @ [Plus Digit] @ lit w) (lit prm)"

definition hit :: "piece list \<Rightarrow> string \<Rightarrow> (string \<times> string \<times> string) option" where
  "hit p s =
     (case rmatch (items p) s of
        None \<Rightarrow> None
      | Some ms \<Rightarrow>
          (case captures p ms of
             [g1, g2] \<Rightarrow> Some (g1, g2, drop (length (concat ms)) s)
           | _ \<Rightarrow> None))"

text \<open>
  \<open>match_at p t i\<close>: the groups of the match of \<open>p\<close> that starts at position \<open>i\<close> of \<open>t\<close>, as
  \<^verbatim>\<open>pattern.match(t, i).groups()\<close> gives them.
\<close>

definition match_at :: "piece list \<Rightarrow> string \<Rightarrow> nat \<Rightarrow> string list option" where
  "match_at p t i =
     (if i \<le> length t then map_option (captures p) (rmatch (items p) (drop i t)) else None)"

text \<open>
  \<open>run_len s\<close>: the length of the longest prefix of \<open>s\<close> without a double quote, which is
  as far as \<^verbatim>\<open>[^"]+\<close> can reach from the start of \<open>s\<close>.
\<close>

definition nq :: "char \<Rightarrow> bool" where
  "nq c = (c \<noteq> dquote)"

definition run_len :: "string \<Rightarrow> nat" where
  "run_len s = length (takeWhile nq s)"

text \<open>The only change a rule makes to a character: an ampersand becomes a question mark.\<close>

definition amp_q :: "char \<Rightarrow> char \<Rightarrow> bool" where
  "amp_q x y = (y = x \<or> (x = CHR ''&'' \<and> y = CHR ''?''))"

definition l9_ok :: "string \<Rightarrow> string \<Rightarrow> bool" where
  "l9_ok w prm = (w \<noteq> [] \<and> \<not> isdigit (hd w) \<and> CHR ''9'' \<notin> set (w @ CHR ''&'' # prm)
      \<and> last (w @ CHR ''&'' # prm) \<noteq> CHR ''l'')"

text \<open>
  \<open>match_end p t i\<close>: where the match of \<open>p\<close> that starts at position \<open>i\<close> of \<open>t\<close> ends, as
  \<^verbatim>\<open>pattern.match(t, i).end()\<close> gives it. \<open>covers p t j\<close>: position \<open>j\<close> of \<open>t\<close> lies inside a
  match of \<open>p\<close>, that is, it belongs to text matched by the rule.
\<close>

definition match_end :: "piece list \<Rightarrow> string \<Rightarrow> nat \<Rightarrow> nat option" where
  "match_end p t i =
     (if i \<le> length t
      then map_option (\<lambda>ms. i + length (concat ms)) (rmatch (items p) (drop i t))
      else None)"

definition covers :: "piece list \<Rightarrow> string \<Rightarrow> nat \<Rightarrow> bool" where
  "covers p t j =
     (\<exists>i \<in> set [0..<Suc j]. case match_end p t i of None \<Rightarrow> False | Some e \<Rightarrow> j < e)"

text \<open>Two texts used to run the theorems on concrete input.\<close>

definition hue_text :: string where
  "hue_text = ''a = '' @ [dquote] @ ''l91/set-hue-saturation&hue=1'' @ [dquote] @ '' +  ''
      @ [dquote] @ ''l92/set-hue-saturation&hue=2'' @ [dquote]"

definition two_rules_text :: string where
  "two_rules_text = ''l91/set-brightness&level=5 p1/get-a&start_date=x''"

text \<open>An item that cannot consume a double quote; this holds for every item of the five patterns.\<close>

fun stops_at_quote :: "item \<Rightarrow> bool" where
  "stops_at_quote (One a) = (\<not> accepts a dquote)"
| "stops_at_quote (Plus a) = (\<not> accepts a dquote)"

text \<open>
  What the script stores in a file whose stored text was \<open>t\<close>, on a platform whose line
  separator is \<open>sep\<close>.
\<close>

definition written_back :: "string \<Rightarrow> string \<Rightarrow> string" where
  "written_back sep t = write_newlines sep (fix_content (universal_newlines t))"

text \<open>A file the script can open for reading, decode, and open for writing.\<close>

definition usable :: "world \<Rightarrow> string \<Rightarrow> bool" where
  "usable w file =
     (case disk w file of
        Some (Text t) \<Rightarrow> readable w file \<and> writable w file
      | _ \<Rightarrow> False)"

text \<open>None of the five patterns matches anywhere in the text (\<^verbatim>\<open>re.search\<close> finds nothing).\<close>

definition no_match :: "string \<Rightarrow> bool" where
  "no_match content = list_all (\<lambda>p. \<not> re_search p content) rules"

text \<open>
  Worlds used to run the theorems on concrete input: the end-to-end scenario of the
  specification in both files; the same with the second file write-protected; the same
  with no file at all; a world whose first file matches no pattern and has a Windows
  line ending, on a platform that writes \<^verbatim>\<open>\n\<close>; and one whose first file has a Unix
  line ending, on a platform that writes \<^verbatim>\<open>\r\n\<close>.
\<close>

definition scenario_text :: string where
  "scenario_text =
     [dquote] @ ''http://host/l9001/set-brightness&level=80'' @ [dquote] @ '' and ''
     @ [dquote] @ ''http://host/p5/get-record&start_date=2024-01-01'' @ [dquote]"

definition scenario_fixed :: string where
  "scenario_fixed =
     [dquote] @ ''http://host/l9001/set-brightness?level=80'' @ [dquote] @ '' and ''
     @ [dquote] @ ''http://host/p5/get-record?start_date=2024-01-01'' @ [dquote]"

definition scenario_world :: world where
  "scenario_world =
     \<lparr>disk = [''TapoLightStripOperations.cs'' \<mapsto> Text scenario_text,
              ''TapoPlugOperations.cs'' \<mapsto> Text scenario_text],
      readable = (\<lambda>file. True), writable = (\<lambda>file. True), linesep = [LF], stdout = []\<rparr>"

definition locked_world :: world where
  "locked_world = scenario_world\<lparr>writable := (\<lambda>file. file = ''TapoLightStripOperations.cs'')\<rparr>"

definition empty_world :: world where
  "empty_world = scenario_world\<lparr>disk := Map.empty\<rparr>"

definition crlf_world :: world where
  "crlf_world =
     \<lparr>disk = [''TapoLightStripOperations.cs'' \<mapsto> Text (''a'' @ [CR, LF] @ ''b''),
              ''TapoPlugOperations.cs'' \<mapsto> Text ''c''],
      readable = (\<lambda>file. True), writable = (\<lambda>file. True), linesep = [LF], stdout = []\<rparr>"

definition lf_world :: world where
  "lf_world =
     \<lparr>disk = [''TapoLightStripOperations.cs'' \<mapsto> Text (''a'' @ [LF] @ ''b''),
              ''TapoPlugOperations.cs'' \<mapsto> Text ''c''],
      readable = (\<lambda>file. True), writable = (\<lambda>file. True), linesep = [CR, LF], stdout = []\<rparr>"

section \<open>The matcher\<close>

lemma first_down_Some:
  "first_down f n = Some (k, x) \<Longrightarrow> 1 \<le> k \<and> k \<le> n \<and> f k = Some x \<and> (\<forall>j. k < j \<and> j \<le> n \<longrightarrow> f j = None)"
proof (induction n)
  case 0
  then show ?case by simp
next
  case (Suc n)
  show ?case
  proof (cases "f (Suc n)")
    case None
    with Suc.prems have "first_down f n = Some (k, x)" by simp
    from Suc.IH[OF this] None show ?thesis
      by (auto simp: le_Suc_eq)
  next
    case (Some y)
    with Suc.prems show ?thesis by auto
  qed
qed

lemma first_down_None:
  "first_down f n = None \<Longrightarrow> 1 \<le> j \<Longrightarrow> j \<le> n \<Longrightarrow> f j = None"
  by (induction n) (auto split: option.splits simp: le_Suc_eq)

lemma first_down_eq:
  "1 \<le> k \<Longrightarrow> k \<le> n \<Longrightarrow> f k = Some x \<Longrightarrow> (\<forall>j. k < j \<and> j \<le> n \<longrightarrow> f j = None) \<Longrightarrow>
   first_down f n = Some (k, x)"
proof (induction n)
  case 0
  then show ?case by simp
next
  case (Suc n)
  show ?case
  proof (cases "k = Suc n")
    case True
    with Suc.prems show ?thesis by simp
  next
    case False
    with Suc.prems have "f (Suc n) = None" "k \<le> n" by auto
    with Suc show ?thesis by simp
  qed
qed

lemma rmatch_sound:
  "rmatch r s = Some ms \<Longrightarrow> list_all2 item_ok r ms \<and> prefix (concat ms) s"
proof (induction r s arbitrary: ms rule: rmatch.induct)
  case (1 s)
  then show ?case by simp
next
  case (2 a r)
  then show ?case by simp
next
  case (3 a r c s)
  then show ?case by (auto split: if_splits)
next
  case (4 a r s)
  from "4.prems" obtain k ps where
    fd: "first_down (\<lambda>k. rmatch r (drop k s)) (length (takeWhile (accepts a) s)) = Some (k, ps)"
    and ms: "ms = take k s # ps"
    by (auto split: option.splits)
  from first_down_Some[OF fd] have k: "1 \<le> k" "k \<le> length (takeWhile (accepts a) s)"
    and m: "rmatch r (drop k s) = Some ps" by auto
  from "4.IH"[OF m] have ih: "list_all2 item_ok r ps" "prefix (concat ps) (drop k s)" by auto
  have kl: "k \<le> length s" using k(2) length_takeWhile_le[of "accepts a" s] by linarith
  have "take k s = take k (takeWhile (accepts a) s)"
    using k(2) by (metis takeWhile_dropWhile_id append_eq_conv_conj take_append min.absorb2 take_take diff_is_0_eq take_0 append_Nil2) 
  then have "list_all (accepts a) (take k s)"
    by (metis list_all_iff in_set_takeD set_takeWhileD)
  moreover have "take k s \<noteq> []" using k(1) kl by (cases s) auto
  moreover have "prefix (take k s @ concat ps) s"
    using ih(2) by (metis append_take_drop_id same_prefix_prefix)
  ultimately show ?case using ih(1) ms by simp
qed

declare re_sub.simps [simp del]

lemma items_amp: "items (amp a b) = a @ One (Lit CHR ''&'') # b"
  by (simp add: amp_def lit_def)

lemma amp_match:
  assumes "rmatch (items (amp a b)) s = Some ms"
  shows "\<exists>g1 g2. captures (amp a b) ms = [g1, g2] \<and> concat ms = g1 @ CHR ''&'' # g2
           \<and> s = g1 @ CHR ''&'' # g2 @ drop (length (concat ms)) s"
proof -
  from rmatch_sound[OF assms]
  have l: "list_all2 item_ok (a @ One (Lit CHR ''&'') # b) ms" and p: "prefix (concat ms) s"
    by (simp_all add: items_amp)
  from l obtain ma mr where ms: "ms = ma @ mr" and la: "length ma = length a"
    and lr: "list_all2 item_ok (One (Lit CHR ''&'') # b) mr"
    by (auto simp: list_all2_append1)
  from lr obtain m mb where mr: "mr = m # mb" and m: "item_ok (One (Lit CHR ''&'')) m"
    and lb: "length mb = length b"
    by (auto simp: list_all2_Cons1 dest: list_all2_lengthD)
  from m have m': "m = [CHR ''&'']" by (cases m) auto
  have c: "captures (amp a b) ms = [concat ma, concat mb]"
    by (simp add: amp_def lit_def ms mr la lb)
  have cc: "concat ms = concat ma @ CHR ''&'' # concat mb"
    by (simp add: ms mr m')
  from p have "s = concat ms @ drop (length (concat ms)) s"
    by (metis append_eq_conv_conj prefixE)
  with c cc show ?thesis by (metis append.assoc append_Cons)
qed

lemma hit_None: "hit (amp a b) s = None \<longleftrightarrow> rmatch (items (amp a b)) s = None"
proof (cases "rmatch (items (amp a b)) s")
  case None
  then show ?thesis by (simp add: hit_def)
next
  case (Some ms)
  from amp_match[OF Some] show ?thesis by (auto simp: hit_def Some)
qed

lemma hit_Some:
  assumes "hit (amp a b) s = Some (g1, g2, rest)"
  shows "s = g1 @ CHR ''&'' # g2 @ rest"
    and "\<exists>ms. rmatch (items (amp a b)) s = Some ms \<and> captures (amp a b) ms = [g1, g2]
           \<and> concat ms = g1 @ CHR ''&'' # g2"
proof -
  from assms obtain ms where r: "rmatch (items (amp a b)) s = Some ms"
    by (auto simp: hit_def split: option.splits)
  from amp_match[OF r] obtain h1 h2 where h: "captures (amp a b) ms = [h1, h2]"
    "concat ms = h1 @ CHR ''&'' # h2" "s = h1 @ CHR ''&'' # h2 @ drop (length (concat ms)) s"
    by blast
  with assms r have e: "g1 = h1" "g2 = h2" "rest = drop (length (concat ms)) s"
    by (auto simp: hit_def)
  show "s = g1 @ CHR ''&'' # g2 @ rest" using h(3) e by simp
  show "\<exists>ms. rmatch (items (amp a b)) s = Some ms \<and> captures (amp a b) ms = [g1, g2]
           \<and> concat ms = g1 @ CHR ''&'' # g2" using r h e by simp
qed

lemma re_sub_Nil: "re_sub (amp a b) repl [] = []"
proof (cases "rmatch (items (amp a b)) []")
  case None
  then show ?thesis by (simp add: re_sub.simps)
next
  case (Some ms)
  from amp_match[OF Some] show ?thesis by auto
qed

lemma re_sub_miss:
  "hit (amp a b) (c # cs) = None \<Longrightarrow> re_sub (amp a b) repl (c # cs) = c # re_sub (amp a b) repl cs"
  by (simp add: hit_None re_sub.simps)

lemma re_sub_hit:
  assumes "hit (amp a b) s = Some (g1, g2, rest)"
  shows "re_sub (amp a b) repl12 s = g1 @ CHR ''?'' # g2 @ re_sub (amp a b) repl12 rest"
proof -
  from hit_Some[OF assms] obtain ms where s: "s = g1 @ CHR ''&'' # g2 @ rest"
    and r: "rmatch (items (amp a b)) s = Some ms" and c: "captures (amp a b) ms = [g1, g2]"
    and cc: "concat ms = g1 @ CHR ''&'' # g2" by blast
  from s have "s \<noteq> []" by simp
  then obtain x xs where x: "s = x # xs" by (auto simp: neq_Nil_conv)
  have d: "drop (length (concat ms) - 1) xs = rest"
  proof -
    have "drop (length (concat ms)) s = rest" using s cc by simp
    moreover have "length (concat ms) = Suc (length (concat ms) - 1)" using cc by simp
    ultimately show ?thesis using x by (metis drop_Suc_Cons)
  qed
  have "re_sub (amp a b) repl12 (x # xs) =
      expand repl12 (captures (amp a b) ms) @ re_sub (amp a b) repl12 (drop (length (concat ms) - 1) xs)"
    using r cc x by (simp add: re_sub.simps)
  then show ?thesis using c d x by (simp add: repl12_def)
qed

lemma hit_induct [consumes 0, case_names Nil miss hit]:
  assumes "P []"
    and "\<And>c cs. hit (amp a b) (c # cs) = None \<Longrightarrow> P cs \<Longrightarrow> P (c # cs)"
    and "\<And>g1 g2 rest. hit (amp a b) (g1 @ CHR ''&'' # g2 @ rest) = Some (g1, g2, rest) \<Longrightarrow> P rest
           \<Longrightarrow> P (g1 @ CHR ''&'' # g2 @ rest)"
  shows "P s"
proof (induction "length s" arbitrary: s rule: less_induct)
  case less
  show ?case
  proof (cases s)
    case Nil
    then show ?thesis using assms(1) by simp
  next
    case (Cons c cs)
    show ?thesis
    proof (cases "hit (amp a b) s")
      case None
      then show ?thesis using assms(2) less Cons by simp
    next
      case (Some h)
      obtain g1 g2 rest where h: "h = (g1, g2, rest)" by (cases h) auto
      from hit_Some(1)[OF Some[unfolded h]] have s: "s = g1 @ CHR ''&'' # g2 @ rest" .
      then have "length rest < length s" by (metis add_Suc_right length_Cons length_append less_add_Suc2 trans_less_add2)
      then have "P rest" using less by simp
      then show ?thesis using assms(3)[of g1 g2 rest] Some h s by simp
    qed
  qed
qed

lemma amp_q_refl: "list_all2 amp_q xs xs"
  by (simp add: list_all2_refl amp_q_def)

lemma re_sub_amp_q: "list_all2 amp_q s (re_sub (amp a b) repl12 s)"
proof (induction s rule: hit_induct[of _ a b])
  case Nil
  then show ?case by (simp add: re_sub_Nil)
next
  case (miss c cs)
  then show ?case by (simp add: re_sub_miss amp_q_def)
next
  case (hit g1 g2 rest)
  have "list_all2 amp_q [CHR ''&''] [CHR ''?'']" by (simp add: amp_q_def)
  then have "list_all2 amp_q (g1 @ [CHR ''&''] @ g2 @ rest)
      (g1 @ [CHR ''?''] @ g2 @ re_sub (amp a b) repl12 rest)"
    by (intro list_all2_appendI amp_q_refl hit.IH)
  then show ?case using hit.hyps by (simp add: re_sub_hit)
qed

lemma first_down_all_None:
  "(\<And>k. 1 \<le> k \<Longrightarrow> k \<le> n \<Longrightarrow> f k = None) \<Longrightarrow> first_down f n = None"
  by (induction n) auto

lemma first_down_top:
  assumes "\<And>k. 1 \<le> k \<Longrightarrow> k < n \<Longrightarrow> f k = None"
  shows "first_down f n = (if n = 0 then None else map_option (Pair n) (f n))"
proof (cases n)
  case 0
  then show ?thesis by simp
next
  case (Suc m)
  have "first_down f m = None"
    by (rule first_down_all_None) (use assms Suc in auto)
  then show ?thesis using Suc by (auto split: option.splits)
qed

lemma single_concat: "concat (map (\<lambda>c. [c]) w) = w"
  by (induction w) auto

lemma rmatch_lit:
  "rmatch (lit w @ r) s =
     (if prefix w s then map_option ((@) (map (\<lambda>c. [c]) w)) (rmatch r (drop (length w) s))
      else None)"
proof (induction w arbitrary: s)
  case Nil
  then show ?case by (cases "rmatch r s") (simp_all add: lit_def)
next
  case (Cons c w)
  show ?case
  proof (cases s)
    case Nil
    then show ?thesis by (simp add: lit_def)
  next
    case (Cons x xs)
    then show ?thesis using Cons.IH[of xs]
      by (auto simp: lit_def option.map_comp comp_def)
  qed
qed

lemma rmatch_lit_end:
  "rmatch (lit w) s = (if prefix w s then Some (map (\<lambda>c. [c]) w) else None)"
  using rmatch_lit[of w "[]" s] by simp

lemma rmatch_plus_stop:
  assumes "\<not> accepts a c0"
  shows "rmatch (Plus a # One (Lit c0) # r) s =
     (if takeWhile (accepts a) s = [] then None
      else map_option ((#) (takeWhile (accepts a) s))
             (rmatch (One (Lit c0) # r) (dropWhile (accepts a) s)))"
proof -
  let ?n = "length (takeWhile (accepts a) s)"
  let ?f = "\<lambda>k. rmatch (One (Lit c0) # r) (drop k s)"
  have mid: "?f k = None" if "1 \<le> k" "k < ?n" for k
  proof -
    have kl: "k < length s" using that(2) length_takeWhile_le[of "accepts a" s] by linarith
    have "s ! k = takeWhile (accepts a) s ! k" using that(2) by (simp add: takeWhile_nth)
    then have "accepts a (s ! k)" using that(2) by (metis nth_mem set_takeWhileD)
    then have "s ! k \<noteq> c0" using assms by auto
    moreover have "drop k s = s ! k # drop (Suc k) s" using kl by (simp add: Cons_nth_drop_Suc)
    ultimately show ?thesis by simp
  qed
  have fd: "first_down ?f ?n = (if ?n = 0 then None else map_option (Pair ?n) (?f ?n))"
    by (rule first_down_top) (use mid in auto)
  have "take ?n s = takeWhile (accepts a) s" by (simp add: takeWhile_eq_take[symmetric])
  moreover have "drop ?n s = dropWhile (accepts a) s" by (simp add: dropWhile_eq_drop[symmetric])
  ultimately show ?thesis
    by (cases "rmatch (One (Lit c0) # r) (dropWhile (accepts a) s)") (simp_all add: fd)
qed

lemma amp_captures:
  assumes "rmatch (items (amp a b)) s = Some ms"
  shows "captures (amp a b) ms = [concat (take (length a) ms), concat (drop (Suc (length a)) ms)]"
proof -
  from rmatch_sound[OF assms] have "length ms = length (a @ One (Lit CHR ''&'') # b)"
    by (auto simp: items_amp dest: list_all2_lengthD)
  then show ?thesis by (simp add: amp_def lit_def)
qed

lemma hit_eq:
  "hit (amp a b) s =
     (case rmatch (items (amp a b)) s of
        None \<Rightarrow> None
      | Some ms \<Rightarrow> Some (concat (take (length a) ms), concat (drop (Suc (length a)) ms),
                       drop (length (concat ms)) s))"
proof (cases "rmatch (items (amp a b)) s")
  case None
  then show ?thesis by (simp add: hit_def)
next
  case (Some ms)
  then show ?thesis by (simp add: hit_def amp_captures[OF Some])
qed

lemma l9_hit:
  assumes "w \<noteq> []" "\<not> isdigit (hd w)"
  shows "hit (l9 w prm) s =
     (if prefix ''l9'' s \<and> takeWhile isdigit (drop 2 s) \<noteq> []
         \<and> prefix (w @ CHR ''&'' # prm) (dropWhile isdigit (drop 2 s))
      then Some (''l9'' @ takeWhile isdigit (drop 2 s) @ w, prm,
                 drop (Suc (length w + length prm)) (dropWhile isdigit (drop 2 s)))
      else None)"
proof -
  obtain c0 w' where w: "w = c0 # w'" using assms(1) by (cases w) auto
  have c0: "\<not> accepts Digit c0" using assms(2) w by simp
  let ?d = "takeWhile isdigit (drop 2 s)"
  let ?s3 = "dropWhile isdigit (drop 2 s)"
  let ?u = "w @ CHR ''&'' # prm"
  have it: "items (l9 w prm) = lit ''l9'' @ Plus Digit # One (Lit c0) # lit (w' @ CHR ''&'' # prm)"
    by (simp add: l9_def items_amp w lit_def)
  have u: "One (Lit c0) # lit (w' @ CHR ''&'' # prm) = lit ?u" by (simp add: w lit_def)
  have acc: "accepts Digit = isdigit" by (rule ext) simp
  have e2: "length ''l9'' = 2" by simp
  have r3: "rmatch (One (Lit c0) # lit (w' @ CHR ''&'' # prm)) ?s3 =
      (if prefix ?u ?s3 then Some (map (\<lambda>c. [c]) ?u) else None)"
    unfolding u by (rule rmatch_lit_end)
  have r2: "rmatch (Plus Digit # One (Lit c0) # lit (w' @ CHR ''&'' # prm)) (drop 2 s) =
      (if ?d \<noteq> [] \<and> prefix ?u ?s3 then Some (?d # map (\<lambda>c. [c]) ?u) else None)"
    unfolding rmatch_plus_stop[OF c0] acc r3 by simp
  have r: "rmatch (items (l9 w prm)) s =
      (if prefix ''l9'' s \<and> ?d \<noteq> [] \<and> prefix ?u ?s3
       then Some (map (\<lambda>c. [c]) ''l9'' @ ?d # map (\<lambda>c. [c]) ?u) else None)"
    unfolding it rmatch_lit[of "''l9''"] e2 r2 by (simp del: rmatch.simps)
  show ?thesis
  proof (cases "prefix ''l9'' s \<and> ?d \<noteq> [] \<and> prefix ?u ?s3")
    case False
    have n: "rmatch (items (l9 w prm)) s = None" unfolding r by (rule if_not_P[OF False])
    have "hit (l9 w prm) s = None" by (simp add: hit_def n)
    then show ?thesis by (simp only: if_not_P[OF False])
  next
    case True
    then have ps: "prefix ''l9'' s" and pu: "prefix ?u ?s3" by auto
    let ?ms = "map (\<lambda>c. [c]) ''l9'' @ ?d # map (\<lambda>c. [c]) ?u"
    let ?a = "lit ''l9'' @ [Plus Digit] @ lit w"
    have rm: "rmatch (items (amp ?a (lit prm))) s = Some ?ms"
      unfolding l9_def[symmetric] r by (rule if_P[OF True])
    have la: "length ?a = 3 + length w" by (simp add: lit_def)
    have ms': "?ms = (map (\<lambda>c. [c]) ''l9'' @ ?d # map (\<lambda>c. [c]) w) @ [CHR ''&''] # map (\<lambda>c. [c]) prm"
      by simp
    have t: "take (3 + length w) ?ms = map (\<lambda>c. [c]) ''l9'' @ ?d # map (\<lambda>c. [c]) w"
      unfolding ms' by (subst take_append) simp
    have dr: "drop (Suc (3 + length w)) ?ms = map (\<lambda>c. [c]) prm"
      unfolding ms' by (subst drop_append) simp
    have g1: "concat (take (3 + length w) ?ms) = ''l9'' @ ?d @ w"
      unfolding t using single_concat[of w] by simp
    have g2: "concat (drop (Suc (3 + length w)) ?ms) = prm"
      unfolding dr by (rule single_concat)
    have cm: "concat ?ms = ''l9'' @ ?d @ ?u"
      using single_concat[of ?u] by simp
    have s: "s = ''l9'' @ drop 2 s" using ps by (auto simp: prefix_def)
    have "drop (length (''l9'' @ ?d @ ?u)) s = drop (length (?d @ ?u)) (drop 2 s)"
      by (subst s) simp
    also have "\<dots> = drop (length ?u) (drop (length ?d) (drop 2 s))" by (simp add: add.commute)
    also have "drop (length ?d) (drop 2 s) = ?s3" by (rule dropWhile_eq_drop[symmetric])
    finally have rest: "drop (length (concat ?ms)) s = drop (Suc (length w + length prm)) ?s3"
      unfolding cm by simp
    have "hit (l9 w prm) s = Some (concat (take (length ?a) ?ms),
        concat (drop (Suc (length ?a)) ?ms), drop (length (concat ?ms)) s)"
      unfolding l9_def hit_eq rm by (simp only: option.case)
    then have "hit (l9 w prm) s = Some (''l9'' @ ?d @ w, prm,
        drop (Suc (length w + length prm)) ?s3)"
      by (simp only: la g1 g2 rest)
    then show ?thesis by (simp only: if_P[OF True])
  qed
qed

lemma nth_mid:
  "(g1 @ x # g2 @ r) ! j =
     (if j < length g1 then g1 ! j
      else if j = length g1 then x
      else if j \<le> length g1 + length g2 then g2 ! (j - Suc (length g1))
      else r ! (j - Suc (length g1 + length g2)))"
proof (cases "j < length g1")
  case True
  then show ?thesis by (simp add: nth_append)
next
  case False
  then obtain m where m: "j = length g1 + m" using le_Suc_ex not_less by blast
  show ?thesis
  proof (cases m)
    case 0
    then show ?thesis using m by simp
  next
    case (Suc k)
    then show ?thesis using m by (simp add: nth_append)
  qed
qed

section \<open>The five rules as patterns of the form (a)&(b)\<close>

lemma rule_brightness_amp:
  "rule_brightness = amp (lit ''l9'' @ [Plus Digit] @ lit ''/set-brightness'') (lit ''level='')"
  by (simp add: rule_brightness_def amp_def)

lemma rule_hue_amp:
  "rule_hue = amp (lit ''l9'' @ [Plus Digit] @ lit ''/set-hue-saturation'') (lit ''hue='')"
  by (simp add: rule_hue_def amp_def)

lemma rule_color_temperature_amp:
  "rule_color_temperature =
     amp (lit ''l9'' @ [Plus Digit] @ lit ''/set-color-temperature'') (lit ''color_temperature='')"
  by (simp add: rule_color_temperature_def amp_def)

lemma rule_lighting_effect_amp:
  "rule_lighting_effect =
     amp (lit ''l9'' @ [Plus Digit] @ lit ''/set-lighting-effect'') (lit ''lighting_effect='')"
  by (simp add: rule_lighting_effect_def amp_def)

lemma rule_start_date_amp:
  "rule_start_date =
     amp (lit ''p'' @ [Plus Digit] @ lit ''/get-'' @ [Plus NotQuote]) (lit ''start_date='')"
  by (simp add: rule_start_date_def amp_def)

lemmas rule_amps = rule_brightness_amp rule_hue_amp rule_color_temperature_amp
  rule_lighting_effect_amp rule_start_date_amp

lemma rules_amp: "p \<in> set rules \<Longrightarrow> \<exists>a b. p = amp a b"
  unfolding rules_def using rule_amps by auto

lemma fix_content_apply_rules: "fix_content content = apply_rules rules content"
  by (simp add: fix_content_def apply_rules_def rules_def)

section \<open>Where a substitution changes the text\<close>

lemma hit_Nil: "hit (amp a b) [] = None"
proof (cases "hit (amp a b) []")
  case None
  then show ?thesis .
next
  case (Some h)
  obtain g1 g2 rest where "h = (g1, g2, rest)" by (cases h) auto
  with hit_Some(1)[of a b "[]" g1 g2 rest] Some show ?thesis by simp
qed

lemma re_sub_changed:
  "j < length s \<Longrightarrow> re_sub (amp a b) repl12 s ! j \<noteq> s ! j \<Longrightarrow>
     \<exists>i g1 g2 rest. hit (amp a b) (drop i s) = Some (g1, g2, rest) \<and> j = i + length g1"
proof (induction s arbitrary: j rule: hit_induct[of _ a b])
  case Nil
  then show ?case by simp
next
  case (miss c cs)
  from miss.prems miss.hyps obtain j' where j: "j = Suc j'"
    by (cases j) (auto simp: re_sub_miss)
  with miss.prems miss.hyps have "j' < length cs" "re_sub (amp a b) repl12 cs ! j' \<noteq> cs ! j'"
    by (auto simp: re_sub_miss)
  from miss.IH[OF this] obtain i g1 g2 rest where
    "hit (amp a b) (drop i cs) = Some (g1, g2, rest)" "j' = i + length g1" by blast
  then have "hit (amp a b) (drop (Suc i) (c # cs)) = Some (g1, g2, rest) \<and> j = Suc i + length g1"
    using j by simp
  then show ?case by blast
next
  case (hit g1 g2 rest)
  let ?n = "Suc (length g1 + length g2)"
  have r: "re_sub (amp a b) repl12 (g1 @ CHR ''&'' # g2 @ rest)
      = g1 @ CHR ''?'' # g2 @ re_sub (amp a b) repl12 rest"
    by (rule re_sub_hit[OF hit.hyps])
  show ?case
  proof (cases "j = length g1")
    case True
    then have "hit (amp a b) (drop 0 (g1 @ CHR ''&'' # g2 @ rest)) = Some (g1, g2, rest)
        \<and> j = 0 + length g1"
      using hit.hyps by simp
    then show ?thesis by blast
  next
    case False
    with hit.prems(2) have big: "\<not> j \<le> length g1 + length g2"
      unfolding r nth_mid by (auto split: if_splits)
    then obtain j' where j: "j = ?n + j'" using le_Suc_ex[of ?n j] by auto
    from hit.prems have "j' < length rest" "re_sub (amp a b) repl12 rest ! j' \<noteq> rest ! j'"
      unfolding r nth_mid j by (auto split: if_splits)
    from hit.IH[OF this] obtain i h1 h2 rest' where
      h: "hit (amp a b) (drop i rest) = Some (h1, h2, rest')" "j' = i + length h1" by blast
    have "drop (?n + i) (g1 @ CHR ''&'' # g2 @ rest) = drop i rest" by simp
    with h j have "hit (amp a b) (drop (?n + i) (g1 @ CHR ''&'' # g2 @ rest)) = Some (h1, h2, rest')
        \<and> j = (?n + i) + length h1"
      by (simp del: drop_append drop_Suc_Cons)
    then show ?thesis by blast
  qed
qed

lemma re_sub_rewrites:
  assumes coh: "\<And>s g1 g2 rest i h1 h2 rest'.
      hit (amp a b) s = Some (g1, g2, rest) \<Longrightarrow> 0 < i \<Longrightarrow> i \<le> length g1 + length g2 \<Longrightarrow>
      hit (amp a b) (drop i s) = Some (h1, h2, rest') \<Longrightarrow> i + length h1 = length g1"
  shows "hit (amp a b) (drop i s) = Some (g1, g2, rest) \<Longrightarrow>
     re_sub (amp a b) repl12 s ! (i + length g1) = CHR ''?''"
proof (induction s arbitrary: i rule: hit_induct[of _ a b])
  case Nil
  then show ?case by (simp add: hit_Nil)
next
  case (miss c cs)
  from miss.prems miss.hyps obtain i' where i: "i = Suc i'" by (cases i) auto
  with miss.prems have "hit (amp a b) (drop i' cs) = Some (g1, g2, rest)" by simp
  from miss.IH[OF this] show ?case using i miss.hyps by (simp add: re_sub_miss)
next
  case (hit h1 h2 rest0)
  let ?n = "Suc (length h1 + length h2)"
  let ?s = "h1 @ CHR ''&'' # h2 @ rest0"
  have r: "re_sub (amp a b) repl12 ?s = h1 @ CHR ''?'' # h2 @ re_sub (amp a b) repl12 rest0"
    by (rule re_sub_hit[OF hit.hyps])
  consider "i = 0" | "0 < i" "i \<le> length h1 + length h2" | "?n \<le> i" by linarith
  then show ?case
  proof cases
    case 1
    with hit.prems hit.hyps have "g1 = h1" by simp
    then show ?thesis using 1 unfolding r nth_mid by simp
  next
    case 2
    from coh[OF hit.hyps 2 hit.prems] have "i + length g1 = length h1" .
    then show ?thesis unfolding r nth_mid by simp
  next
    case 3
    then obtain i' where i: "i = ?n + i'" using le_Suc_ex[of ?n i] by auto
    have "drop (?n + i') ?s = drop i' rest0" by simp
    with hit.prems i have "hit (amp a b) (drop i' rest0) = Some (g1, g2, rest)"
      by (simp del: drop_append drop_Suc_Cons)
    from hit.IH[OF this] show ?thesis unfolding r nth_mid i by simp
  qed
qed

lemma no_l9_in:
  assumes "CHR ''9'' \<notin> set B" "last B \<noteq> CHR ''l''" "j < length B"
  shows "\<not> prefix ''l9'' (drop j B @ rest)"
proof
  assume p: "prefix ''l9'' (drop j B @ rest)"
  have d: "drop j B = B ! j # drop (Suc j) B" using assms(3) by (simp add: Cons_nth_drop_Suc)
  from p d have l: "B ! j = CHR ''l''" and p': "prefix ''9'' (drop (Suc j) B @ rest)" by auto
  show False
  proof (cases "Suc j < length B")
    case True
    then have "drop (Suc j) B = B ! Suc j # drop (Suc (Suc j)) B" by (simp add: Cons_nth_drop_Suc)
    with p' have "B ! Suc j = CHR ''9''" by auto
    then show False using assms(1) True by (metis nth_mem)
  next
    case False
    then have "Suc j = length B" using assms(3) by simp
    then have "last B = B ! j" using assms(3) by (metis diff_Suc_1 last_conv_nth length_greater_0_conv gr_implies_not0 list.size(3))
    then show False using l assms(2) by simp
  qed
qed

lemma l9_coherent:
  assumes w: "w \<noteq> []" "\<not> isdigit (hd w)" "CHR ''9'' \<notin> set (w @ CHR ''&'' # prm)"
      "last (w @ CHR ''&'' # prm) \<noteq> CHR ''l''"
    and h: "hit (l9 w prm) s = Some (g1, g2, rest)" and i: "0 < i" "i \<le> length g1 + length g2"
  shows "hit (l9 w prm) (drop i s) = None"
proof -
  let ?d = "takeWhile isdigit (drop 2 s)"
  let ?B = "w @ CHR ''&'' # prm"
  from h have g: "g1 = ''l9'' @ ?d @ w" "g2 = prm"
    unfolding l9_hit[OF w(1,2)] by (auto split: if_splits)
  from hit_Some(1)[OF h[unfolded l9_def]] have s: "s = g1 @ CHR ''&'' # g2 @ rest" .
  have s': "s = CHR ''l'' # (CHR ''9'' # ?d) @ ?B @ rest" by (subst s) (simp add: g)
  define A where "A = CHR ''9'' # ?d"
  define B where "B = w @ CHR ''&'' # prm"
  have Al: "\<And>c. c \<in> set A \<Longrightarrow> c \<noteq> CHR ''l''"
    unfolding A_def by (auto dest!: set_takeWhileD simp: isdigit_def)
  have Bp: "CHR ''9'' \<notin> set B" "last B \<noteq> CHR ''l''" using w(3,4) unfolding B_def by auto
  have s': "s = CHR ''l'' # A @ B @ rest" unfolding A_def B_def by (subst s) (simp add: g)
  obtain i0 where i0: "i = Suc i0" using i(1) by (cases i) auto
  have i0l: "i0 < length A + length B" using i(2) i0 g by (simp add: A_def B_def)
  have dr: "drop i s = drop i0 (A @ B @ rest)" by (subst s') (simp add: i0)
  have "\<not> prefix ''l9'' (drop i s)"
  proof (cases "i0 < length A")
    case True
    then have "drop i0 A = A ! i0 # drop (Suc i0) A"
      by (simp only: Cons_nth_drop_Suc)
    moreover have "A ! i0 \<noteq> CHR ''l''" using True Al by simp
    ultimately show ?thesis unfolding dr using True by (simp add: drop_append)
  next
    case False
    then obtain j where j: "i0 = length A + j" using le_Suc_ex not_less by blast
    then have jl: "j < length B" using i0l by simp
    have "drop i0 (A @ B @ rest) = drop j B @ rest" using jl by (simp add: j)
    then show ?thesis unfolding dr using no_l9_in[OF Bp jl, of rest] by simp
  qed
  then show ?thesis unfolding l9_hit[OF w(1,2)] by simp
qed

lemma takeWhile_all: "list_all P xs \<Longrightarrow> takeWhile P (xs @ ys) = xs @ takeWhile P ys"
  by (induction xs) auto

lemma takeWhile_drop:
  "i \<le> length (takeWhile P s) \<Longrightarrow> takeWhile P (drop i s) = drop i (takeWhile P s)"
proof (induction s arbitrary: i)
  case Nil
  then show ?case by simp
next
  case (Cons c s)
  then show ?case by (cases i) (auto split: if_splits)
qed

lemma list_all_take_takeWhile:
  "k \<le> length (takeWhile P s) \<Longrightarrow> list_all P (take k s)"
proof (induction s arbitrary: k)
  case Nil
  then show ?case by simp
next
  case (Cons c s)
  then show ?case by (cases k) (auto split: if_splits)
qed

lemma rmatch_lit_Some:
  "rmatch (lit w @ r) s = Some ms \<Longrightarrow>
     \<exists>ms'. prefix w s \<and> rmatch r (drop (length w) s) = Some ms' \<and> ms = map (\<lambda>c. [c]) w @ ms'"
  unfolding rmatch_lit by (auto split: if_splits)

lemma list_all_takeWhile: "list_all P (takeWhile P xs)"
  by (induction xs) auto

lemma isdigit_nq: "isdigit c \<Longrightarrow> nq c"
  by (auto simp: isdigit_def nq_def)

lemma start_date_hit:
  assumes "hit rule_start_date s = Some (g1, g2, rest)"
  shows "g2 = ''start_date=''"
    and "length g1 + 12 \<le> run_len s"
    and "prefix ''&start_date='' (drop (length g1) s)"
    and "\<And>j. length g1 < j \<Longrightarrow> j < run_len s \<Longrightarrow> \<not> prefix ''&start_date='' (drop j s)"
    and "\<exists>d x. d \<noteq> [] \<and> list_all isdigit d \<and> x \<noteq> [] \<and> list_all nq x
            \<and> g1 = ''p'' @ d @ ''/get-'' @ x"
proof -
  define u where "u = ''&start_date=''"
  define a where "a = lit ''p'' @ [Plus Digit] @ lit ''/get-'' @ [Plus NotQuote]"
  define R3 where "R3 = Plus NotQuote # lit u"
  define R2 where "R2 = lit ''/get-'' @ R3"
  define R1 where "R1 = Plus Digit # One (Lit CHR ''/'') # lit ''get-'' @ R3"
  have ul: "length u = 12" and unq: "list_all nq u" by (simp_all add: u_def nq_def)
  have la: "length a = 8" by (simp add: a_def lit_def)
  have it: "items (amp a (lit ''start_date='')) = lit ''p'' @ R1"
    by (simp add: items_amp a_def R1_def R3_def u_def lit_def)
  have R2': "One (Lit CHR ''/'') # lit ''get-'' @ R3 = R2" by (simp add: R2_def lit_def)
  from assms have "hit (amp a (lit ''start_date='')) s = Some (g1, g2, rest)"
    unfolding rule_start_date_amp a_def .
  then obtain ms where rm0: "rmatch (items (amp a (lit ''start_date=''))) s = Some ms"
    and g10: "g1 = concat (take (length a) ms)" and g20: "g2 = concat (drop (Suc (length a)) ms)"
    unfolding hit_eq by (auto split: option.splits)
  have rm: "rmatch (lit ''p'' @ R1) s = Some ms" using rm0 unfolding it .
  have g1: "g1 = concat (take 8 ms)" and g2: "g2 = concat (drop 9 ms)"
    using g10 g20 unfolding la by simp_all
  \<comment> \<open>the literal p\<close>
  from rm obtain ms1 where p1: "prefix ''p'' s" and m1: "rmatch R1 (drop 1 s) = Some ms1"
    and ms: "ms = [''p''] @ ms1"
    unfolding rmatch_lit[of "''p''"] by (auto split: if_splits)
  \<comment> \<open>the digits\<close>
  define d where "d = takeWhile isdigit (drop 1 s)"
  define s3 where "s3 = dropWhile isdigit (drop 1 s)"
  have acc: "accepts Digit = isdigit" by (rule ext) simp
  have nd: "\<not> accepts Digit CHR ''/''" by (simp add: isdigit_def)
  have "(if d = [] then None else map_option ((#) d) (rmatch R2 s3)) = Some ms1"
    using m1 unfolding R1_def rmatch_plus_stop[OF nd] unfolding acc R2' d_def s3_def .
  then obtain ms2 where dne: "d \<noteq> []" and m2: "rmatch R2 s3 = Some ms2" and ms1: "ms1 = d # ms2"
    by (auto split: if_splits)
  \<comment> \<open>the literal /get-\<close>
  define s4 where "s4 = drop (length ''/get-'') s3"
  from rmatch_lit_Some[OF m2[unfolded R2_def]]
  obtain ms3 where p3: "prefix ''/get-'' s3" and m3: "rmatch R3 s4 = Some ms3"
    and ms2: "ms2 = map (\<lambda>c. [c]) ''/get-'' @ ms3"
    unfolding s4_def by blast
  \<comment> \<open>the greedy run and the rest\<close>
  have accq: "accepts NotQuote = nq" by (rule ext) (simp add: nq_def)
  from m3 obtain k ps where
    fd: "first_down (\<lambda>k. rmatch (lit u) (drop k s4)) (run_len s4) = Some (k, ps)"
    and ms3: "ms3 = take k s4 # ps"
    unfolding R3_def run_len_def by (auto simp: accq split: option.splits)
  from first_down_Some[OF fd] have k: "1 \<le> k" "k \<le> run_len s4"
    and fk: "rmatch (lit u) (drop k s4) = Some ps"
    and fj: "\<And>j. k < j \<Longrightarrow> j \<le> run_len s4 \<Longrightarrow> rmatch (lit u) (drop j s4) = None"
    by auto
  from fk have pk: "prefix u (drop k s4)" and ps: "ps = map (\<lambda>c. [c]) u"
    unfolding rmatch_lit_end by (auto split: if_splits)
  define x where "x = take k s4"
  define H where "H = ''p'' @ d @ ''/get-''"
  have msx: "ms = [''p'', d] @ map (\<lambda>c. [c]) ''/get-'' @ [x] @ map (\<lambda>c. [c]) u"
    by (simp add: ms ms1 ms2 ms3 ps x_def)
  have g1': "g1 = H @ x" unfolding g1 msx H_def by simp
  have g2': "g2 = ''start_date=''" unfolding g2 msx by (simp add: u_def)
  have sH: "s = H @ s4"
  proof -
    from p1 obtain t1 where t1: "s = ''p'' @ t1" by (auto simp: prefix_def)
    have dt: "drop 1 s = t1" by (simp add: t1)
    have t1': "t1 = d @ s3" unfolding d_def s3_def dt by simp
    from p3 obtain t4 where t4: "s3 = ''/get-'' @ t4" by (auto simp: prefix_def)
    have s4': "s4 = t4" unfolding s4_def t4 by simp
    show ?thesis unfolding H_def s4' t1 t1' t4 by simp
  qed
  have dd: "list_all isdigit d" unfolding d_def by (rule list_all_takeWhile)
  have dnq: "list_all nq d" using dd by (auto simp: list_all_iff intro: isdigit_nq)
  have Hnq: "list_all nq H"
    unfolding H_def using dnq by (simp add: nq_def)
  have rl: "run_len s = length H + run_len s4"
    unfolding run_len_def by (subst sH) (simp add: takeWhile_all[OF Hnq])
  have dj: "\<And>j. drop (length H + j) s = drop j s4" by (subst sH) simp
  have xk: "length x = k" using k(2) length_takeWhile_le[of nq s4]
    unfolding x_def run_len_def by simp
  have xnq: "list_all nq x"
    unfolding x_def by (rule list_all_take_takeWhile) (use k(2) in \<open>simp add: run_len_def\<close>)
  have s4x: "s4 = x @ drop k s4" unfolding x_def by simp
  from pk obtain r' where r': "drop k s4 = u @ r'" by (auto simp: prefix_def)
  have "takeWhile nq s4 = x @ u @ takeWhile nq r'"
    by (subst s4x) (simp add: r' takeWhile_all[OF xnq] takeWhile_all[OF unq])
  then have n4: "k + 12 \<le> run_len s4" unfolding run_len_def by (simp add: xk ul)
  show "g2 = ''start_date=''" by (rule g2')
  show "length g1 + 12 \<le> run_len s" unfolding g1' rl using n4 xk by simp
  show "prefix ''&start_date='' (drop (length g1) s)"
    using pk dj[of k] unfolding g1' u_def by (simp add: xk)
  show "\<not> prefix ''&start_date='' (drop j s)" if "length g1 < j" "j < run_len s" for j
  proof -
    define j' where "j' = j - length H"
    have j: "j = length H + j'" "k < j'" "j' < run_len s4"
      using that xk unfolding g1' rl j'_def by simp_all
    from fj[of j'] j have "rmatch (lit u) (drop j' s4) = None" by simp
    then have "\<not> prefix u (drop j' s4)" unfolding rmatch_lit_end by (auto split: if_splits)
    then show ?thesis unfolding j(1) dj u_def .
  qed
  have "x \<noteq> []" using xk k(1) by auto
  then show "\<exists>d x. d \<noteq> [] \<and> list_all isdigit d \<and> x \<noteq> [] \<and> list_all nq x
            \<and> g1 = ''p'' @ d @ ''/get-'' @ x"
    using dne dd xnq g1' unfolding H_def by auto
qed

lemma run_len_drop: "i \<le> run_len s \<Longrightarrow> run_len (drop i s) = run_len s - i"
  unfolding run_len_def by (simp add: takeWhile_drop)

lemma start_date_coherent:
  assumes h: "hit rule_start_date s = Some (g1, g2, rest)"
    and i: "0 < i" "i \<le> length g1 + length g2"
    and h': "hit rule_start_date (drop i s) = Some (h1, h2, rest')"
  shows "i + length h1 = length g1"
proof -
  note a = start_date_hit[OF h]
  note b = start_date_hit[OF h']
  have g2: "length g2 = 11" using a(1) by simp
  have iN: "i \<le> run_len s" using i(2) a(2) g2 by simp
  have N': "run_len (drop i s) = run_len s - i" by (rule run_len_drop[OF iN])
  have e'N: "i + length h1 < run_len s" using b(2) N' iN by simp
  have p': "prefix ''&start_date='' (drop (i + length h1) s)"
    using b(3) by (simp add: add.commute)
  show ?thesis
  proof (rule ccontr)
    assume ne: "i + length h1 \<noteq> length g1"
    show False
    proof (cases "length g1 < i + length h1")
      case True
      from a(4)[OF True e'N] p' show False by simp
    next
      case False
      with ne have lt: "i + length h1 < length g1" by simp
      then have 1: "length h1 < length g1 - i" by simp
      have 2: "length g1 - i < run_len (drop i s)" using a(2) N' lt by simp
      have "drop (length g1 - i) (drop i s) = drop (length g1) s" using lt by simp
      with b(4)[OF 1 2] a(3) show False by simp
    qed
  qed
qed

section \<open>Only ampersands change\<close>

lemma amp_q_trans: "amp_q x y \<Longrightarrow> amp_q y z \<Longrightarrow> amp_q x z"
  by (auto simp: amp_q_def)

lemma list_all2_amp_q_trans:
  "list_all2 amp_q xs ys \<Longrightarrow> list_all2 amp_q ys zs \<Longrightarrow> list_all2 amp_q xs zs"
  by (rule list_all2_trans[of amp_q amp_q amp_q]) (auto intro: amp_q_trans)

lemma apply_rules_amp_q:
  "(\<And>p. p \<in> set rs \<Longrightarrow> \<exists>a b. p = amp a b) \<Longrightarrow> list_all2 amp_q s (apply_rules rs s)"
proof (induction rs arbitrary: s)
  case Nil
  then show ?case by (simp add: apply_rules_def amp_q_refl)
next
  case (Cons p rs)
  from Cons.prems[of p] obtain a b where p: "p = amp a b" by auto
  have "list_all2 amp_q (re_sub p repl12 s) (apply_rules rs (re_sub p repl12 s))"
    using Cons by simp
  moreover have "list_all2 amp_q s (re_sub p repl12 s)"
    unfolding p by (rule re_sub_amp_q)
  ultimately have "list_all2 amp_q s (apply_rules rs (re_sub p repl12 s))"
    by (rule list_all2_amp_q_trans[rotated])
  then show ?case by (simp add: apply_rules_def)
qed

lemma fix_content_amp_q: "list_all2 amp_q content (fix_content content)"
  unfolding fix_content_apply_rules by (rule apply_rules_amp_q) (rule rules_amp)

lemma re_sub_length: "length (re_sub (amp a b) repl12 s) = length s"
  using list_all2_lengthD[OF re_sub_amp_q[of s a b]] by simp

lemma amp_q_nth:
  "list_all2 amp_q xs ys \<Longrightarrow> i < length xs \<Longrightarrow>
     ys ! i = xs ! i \<or> (xs ! i = CHR ''&'' \<and> ys ! i = CHR ''?'')"
  by (auto simp: list_all2_conv_all_nth amp_q_def)

text \<open>
  C9: the transformation keeps the length of the text. Each of the five calls keeps it,
  since the replacement of a match \<open>g1 & g2\<close> is \<open>g1 ? g2\<close>, and so does their chain.
\<close>

theorem fix_content_length:
  "length (fix_content content) = length content
   \<and> length (re_sub rule_brightness repl12 content) = length content
   \<and> length (re_sub rule_hue repl12 content) = length content
   \<and> length (re_sub rule_color_temperature repl12 content) = length content
   \<and> length (re_sub rule_lighting_effect repl12 content) = length content
   \<and> length (re_sub rule_start_date repl12 content) = length content"
  using list_all2_lengthD[OF fix_content_amp_q[of content]]
  by (simp add: rule_amps re_sub_length)

text \<open>
  C10: the output has the length of the input, and at every position it holds either the
  character of the input or, where the input holds an ampersand, a question mark. So
  nothing is inserted or deleted, and no character but an ampersand is changed.
\<close>

theorem fix_content_frame:
  "length (fix_content content) = length content
   \<and> (\<forall>i<length content.
        fix_content content ! i = content ! i
        \<or> (content ! i = CHR ''&'' \<and> fix_content content ! i = CHR ''?''))"
  using fix_content_amp_q[of content] by (auto dest: list_all2_lengthD amp_q_nth)

theorem fix_content_frame_witness:
  "length (fix_content ''l91/set-brightness&level=5'') = length ''l91/set-brightness&level=5''
   \<and> (18::nat) < length ''l91/set-brightness&level=5''
   \<and> ''l91/set-brightness&level=5'' ! 18 = CHR ''&''
   \<and> fix_content ''l91/set-brightness&level=5'' ! 18 = CHR ''?''
   \<and> fix_content ''l91/set-brightness&level=5'' ! 17 = ''l91/set-brightness&level=5'' ! 17"
proof -
  have e: "fix_content ''l91/set-brightness&level=5'' = ''l91/set-brightness?level=5''"
    by code_simp
  show ?thesis
    using fix_content_frame[of "''l91/set-brightness&level=5''"] by (simp add: e)
qed

text \<open>
  C4: the transformation of one file is the five single-rule substitutions composed in
  the order of the list, each reading the output of the one before. A rule does not read
  a copy of the original text: on the text below the last rule alone leaves the
  ampersand that the first rule has rewritten.
\<close>

theorem fix_content_chain:
  "fix_content content =
     (re_sub rule_start_date repl12 \<circ> re_sub rule_lighting_effect repl12
      \<circ> re_sub rule_color_temperature repl12 \<circ> re_sub rule_hue repl12
      \<circ> re_sub rule_brightness repl12) content
   \<and> fix_content content = apply_rules rules content
   \<and> fix_content ''l91/set-brightness&level=5''
       \<noteq> re_sub rule_start_date repl12 ''l91/set-brightness&level=5''"
proof -
  have "fix_content ''l91/set-brightness&level=5'' = ''l91/set-brightness?level=5''"
    by code_simp
  moreover have "re_sub rule_start_date repl12 ''l91/set-brightness&level=5''
      = ''l91/set-brightness&level=5''"
    by code_simp
  ultimately show ?thesis
    by (simp add: fix_content_def fix_content_apply_rules[symmetric])
qed

section \<open>Every match is rewritten\<close>

lemma rule_brightness_l9: "rule_brightness = l9 ''/set-brightness'' ''level=''"
  by (simp add: rule_brightness_amp l9_def)

lemma rule_hue_l9: "rule_hue = l9 ''/set-hue-saturation'' ''hue=''"
  by (simp add: rule_hue_amp l9_def)

lemma rule_color_temperature_l9:
  "rule_color_temperature = l9 ''/set-color-temperature'' ''color_temperature=''"
  by (simp add: rule_color_temperature_amp l9_def)

lemma rule_lighting_effect_l9:
  "rule_lighting_effect = l9 ''/set-lighting-effect'' ''lighting_effect=''"
  by (simp add: rule_lighting_effect_amp l9_def)

lemma l9_ok_rules:
  "l9_ok ''/set-brightness'' ''level=''"
  "l9_ok ''/set-hue-saturation'' ''hue=''"
  "l9_ok ''/set-color-temperature'' ''color_temperature=''"
  "l9_ok ''/set-lighting-effect'' ''lighting_effect=''"
  by (simp_all add: l9_ok_def isdigit_def)

lemma l9_rewrites:
  assumes "l9_ok w prm" "hit (l9 w prm) (drop i s) = Some (g1, g2, rest)"
  shows "re_sub (l9 w prm) repl12 s ! (i + length g1) = CHR ''?''"
proof -
  from assms(1) have w: "w \<noteq> []" "\<not> isdigit (hd w)" "CHR ''9'' \<notin> set (w @ CHR ''&'' # prm)"
    "last (w @ CHR ''&'' # prm) \<noteq> CHR ''l''" by (simp_all add: l9_ok_def)
  show ?thesis
    unfolding l9_def
  proof (rule re_sub_rewrites)
    show "hit (amp (lit ''l9'' @ [Plus Digit] @ lit w) (lit prm)) (drop i s) = Some (g1, g2, rest)"
      using assms(2) unfolding l9_def .
  next
    fix s g1 g2 rest i h1 h2 rest'
    assume "hit (amp (lit ''l9'' @ [Plus Digit] @ lit w) (lit prm)) s = Some (g1, g2, rest)"
      "0 < i" "i \<le> length g1 + length g2"
      "hit (amp (lit ''l9'' @ [Plus Digit] @ lit w) (lit prm)) (drop i s) = Some (h1, h2, rest')"
    with l9_coherent[OF w, of s g1 g2 rest i] show "i + length h1 = length g1"
      unfolding l9_def by simp
  qed
qed

lemma start_date_rewrites:
  assumes "hit rule_start_date (drop i s) = Some (g1, g2, rest)"
  shows "re_sub rule_start_date repl12 s ! (i + length g1) = CHR ''?''"
  unfolding rule_start_date_amp
proof (rule re_sub_rewrites)
  show "hit (amp (lit ''p'' @ [Plus Digit] @ lit ''/get-'' @ [Plus NotQuote]) (lit ''start_date=''))
      (drop i s) = Some (g1, g2, rest)"
    using assms unfolding rule_start_date_amp .
next
  fix s g1 g2 rest i h1 h2 rest'
  assume "hit (amp (lit ''p'' @ [Plus Digit] @ lit ''/get-'' @ [Plus NotQuote]) (lit ''start_date='')) s
      = Some (g1, g2, rest)" "0 < i" "i \<le> length g1 + length g2"
    "hit (amp (lit ''p'' @ [Plus Digit] @ lit ''/get-'' @ [Plus NotQuote]) (lit ''start_date=''))
      (drop i s) = Some (h1, h2, rest')"
  then show "i + length h1 = length g1"
    unfolding rule_start_date_amp[symmetric] by (rule start_date_coherent)
qed

lemma rules_cases:
  assumes "p \<in> set rules"
  obtains w prm where "p = l9 w prm" "l9_ok w prm" | "p = rule_start_date"
  using assms l9_ok_rules
  unfolding rules_def rule_brightness_l9 rule_hue_l9 rule_color_temperature_l9
    rule_lighting_effect_l9
  by auto

lemma rules_rewrites:
  assumes "p \<in> set rules" "hit p (drop i s) = Some (g1, g2, rest)"
  shows "re_sub p repl12 s ! (i + length g1) = CHR ''?''"
  using assms(1)
proof (cases rule: rules_cases)
  case (1 w prm)
  then show ?thesis using l9_rewrites assms(2) by simp
next
  case 2
  then show ?thesis using start_date_rewrites assms(2) by simp
qed

lemma match_at_hit:
  "match_at (amp a b) t i = Some [g1, g2] \<longleftrightarrow> (\<exists>rest. hit (amp a b) (drop i t) = Some (g1, g2, rest))"
proof
  assume m: "match_at (amp a b) t i = Some [g1, g2]"
  then obtain ms where "rmatch (items (amp a b)) (drop i t) = Some ms"
    "captures (amp a b) ms = [g1, g2]"
    by (auto simp: match_at_def split: if_splits)
  then show "\<exists>rest. hit (amp a b) (drop i t) = Some (g1, g2, rest)"
    by (simp add: hit_def)
next
  assume "\<exists>rest. hit (amp a b) (drop i t) = Some (g1, g2, rest)"
  then obtain rest where h: "hit (amp a b) (drop i t) = Some (g1, g2, rest)" by blast
  have "i \<le> length t"
  proof (rule ccontr)
    assume "\<not> i \<le> length t"
    then have "drop i t = []" by simp
    with h show False by (simp add: hit_Nil)
  qed
  moreover from hit_Some(2)[OF h] obtain ms where "rmatch (items (amp a b)) (drop i t) = Some ms"
    "captures (amp a b) ms = [g1, g2]" by blast
  ultimately show "match_at (amp a b) t i = Some [g1, g2]" by (simp add: match_at_def)
qed

section \<open>Every match is rewritten, and nothing else\<close>

lemma hit_le_length: "hit (amp a b) (drop i t) = Some h \<Longrightarrow> i \<le> length t"
proof (rule ccontr)
  assume "hit (amp a b) (drop i t) = Some h" "\<not> i \<le> length t"
  then show False by (simp add: hit_Nil)
qed

lemma hit_match_end:
  assumes "hit (amp a b) (drop i t) = Some (g1, g2, rest)"
  shows "match_end (amp a b) t i = Some (i + length g1 + 1 + length g2)"
proof -
  from hit_Some(2)[OF assms] obtain ms where "rmatch (items (amp a b)) (drop i t) = Some ms"
    "concat ms = g1 @ CHR ''&'' # g2" by blast
  then show ?thesis using hit_le_length[OF assms] by (simp add: match_end_def)
qed

lemma changed_covers:
  assumes "j < length t" "re_sub (amp a b) repl12 t ! j \<noteq> t ! j"
  shows "covers (amp a b) t j"
proof -
  from re_sub_changed[OF assms] obtain i g1 g2 rest where
    h: "hit (amp a b) (drop i t) = Some (g1, g2, rest)" and j: "j = i + length g1" by blast
  from hit_match_end[OF h] j show ?thesis
    unfolding covers_def by (intro bexI[of _ i]) auto
qed

lemma rules_changed:
  assumes "p \<in> set rules" "j < length t" "re_sub p repl12 t ! j \<noteq> t ! j"
  shows "t ! j = CHR ''&'' \<and> (\<exists>i g1 g2. match_at p t i = Some [g1, g2] \<and> j = i + length g1)"
proof -
  from rules_amp[OF assms(1)] obtain a b where p: "p = amp a b" by blast
  from re_sub_changed[OF assms(2) assms(3)[unfolded p]] obtain i g1 g2 rest where
    h: "hit (amp a b) (drop i t) = Some (g1, g2, rest)" and j: "j = i + length g1" by blast
  then have "match_at p t i = Some [g1, g2]" unfolding p match_at_hit by blast
  moreover have "t ! j = CHR ''&''"
    using amp_q_nth[OF re_sub_amp_q[of t a b] assms(2)] assms(3) unfolding p by auto
  ultimately show ?thesis using j by blast
qed

text \<open>
  For each of the five rules and every text, the substitution keeps the length of the
  text; wherever the greedy match of the pattern succeeds, the ampersand between the two
  groups of that match is a question mark in the output; and the output differs from the
  input at no other place: every position that changed held an ampersand and is the
  separator of such a match. A match of rule 5 runs to the last \<^verbatim>\<open>&start_date=\<close> before
  the next double quote, so this leaves open what happens to a call that stands before
  another one in the same run; the last section shows that it is not rewritten.
\<close>

theorem every_match_rewritten:
  "p \<in> set rules \<Longrightarrow>
     length (re_sub p repl12 content) = length content
     \<and> (\<forall>i g1 g2. match_at p content i = Some [g1, g2] \<longrightarrow>
           re_sub p repl12 content ! (i + length g1) = CHR ''?'')
     \<and> (\<forall>j<length content. re_sub p repl12 content ! j \<noteq> content ! j \<longrightarrow>
           content ! j = CHR ''&''
           \<and> (\<exists>i g1 g2. match_at p content i = Some [g1, g2] \<and> j = i + length g1))"
proof (intro conjI allI impI)
  assume p: "p \<in> set rules"
  from rules_amp[OF p] obtain a b where ab: "p = amp a b" by blast
  show "length (re_sub p repl12 content) = length content"
    unfolding ab by (rule re_sub_length)
  show "re_sub p repl12 content ! (i + length g1) = CHR ''?''"
    if "match_at p content i = Some [g1, g2]" for i g1 g2
  proof -
    from that obtain rest where "hit p (drop i content) = Some (g1, g2, rest)"
      unfolding ab match_at_hit by blast
    then show ?thesis by (rule rules_rewrites[OF p])
  qed
  show "content ! j = CHR ''&''" if "j < length content" "re_sub p repl12 content ! j \<noteq> content ! j" for j
    using rules_changed[OF p that] by blast
  show "\<exists>i g1 g2. match_at p content i = Some [g1, g2] \<and> j = i + length g1"
    if "j < length content" "re_sub p repl12 content ! j \<noteq> content ! j" for j
    using rules_changed[OF p that] by blast
qed

lemma covers_hit:
  assumes "covers (amp a b) t j"
  shows "\<exists>i g1 g2 rest. hit (amp a b) (drop i t) = Some (g1, g2, rest) \<and> i \<le> j
           \<and> j < i + length g1 + 1 + length g2"
proof -
  from assms obtain i where i0: "i \<in> set [0..<Suc j]"
    and c: "case match_end (amp a b) t i of None \<Rightarrow> False | Some e \<Rightarrow> j < e"
    unfolding covers_def by blast
  from i0 have i: "i \<le> j" by auto
  from c obtain e where e: "match_end (amp a b) t i = Some e" and j: "j < e"
    by (cases "match_end (amp a b) t i") auto
  from e obtain ms where rm: "rmatch (items (amp a b)) (drop i t) = Some ms"
    and e': "e = i + length (concat ms)"
    unfolding match_end_def by (auto split: if_splits)
  from amp_match[OF rm] obtain g1 g2 where c: "captures (amp a b) ms = [g1, g2]"
    and cc: "concat ms = g1 @ CHR ''&'' # g2" by blast
  have "hit (amp a b) (drop i t) = Some (g1, g2, drop (length (concat ms)) (drop i t))"
    unfolding hit_def using rm c by simp
  moreover have "j < i + length g1 + 1 + length g2" using j e' cc by simp
  ultimately show ?thesis using i by blast
qed

lemma brightness_groups:
  assumes "hit rule_brightness s = Some (g1, g2, rest)"
  shows "CHR ''&'' \<notin> set g1" "CHR ''&'' \<notin> set g2"
proof -
  have ok: "''/set-brightness'' \<noteq> []" "\<not> isdigit (hd ''/set-brightness'')"
    by (simp_all add: isdigit_def)
  from assms have g: "g1 = ''l9'' @ takeWhile isdigit (drop 2 s) @ ''/set-brightness''" "g2 = ''level=''"
    unfolding rule_brightness_l9 l9_hit[OF ok] by (auto split: if_splits)
  have "CHR ''&'' \<notin> set (takeWhile isdigit (drop 2 s))"
    by (auto dest!: set_takeWhileD simp: isdigit_def)
  then show "CHR ''&'' \<notin> set g1" unfolding g by simp
  show "CHR ''&'' \<notin> set g2" unfolding g by simp
qed

lemma brightness_stays:
  assumes j: "j < length t" and c: "covers rule_brightness t j"
  shows "fix_content t ! j = re_sub rule_brightness repl12 t ! j"
proof (rule ccontr)
  let ?y = "re_sub rule_brightness repl12 t"
  assume ne: "fix_content t ! j \<noteq> ?y ! j"
  have f: "fix_content t = apply_rules [rule_hue, rule_color_temperature, rule_lighting_effect,
      rule_start_date] ?y"
    by (simp add: fix_content_def apply_rules_def)
  have "list_all2 amp_q ?y (fix_content t)"
    unfolding f by (rule apply_rules_amp_q) (use rule_amps in auto)
  moreover have ly: "length ?y = length t" unfolding rule_brightness_amp by (rule re_sub_length)
  ultimately have y: "?y ! j = CHR ''&''" using amp_q_nth[of ?y "fix_content t" j] j ne by auto
  have "list_all2 amp_q t ?y" unfolding rule_brightness_amp by (rule re_sub_amp_q)
  from amp_q_nth[OF this j] y have tj: "t ! j = CHR ''&''" by auto
  from covers_hit[OF c[unfolded rule_brightness_amp]] obtain i g1 g2 rest where
    h: "hit rule_brightness (drop i t) = Some (g1, g2, rest)" and i: "i \<le> j"
    and e: "j < i + length g1 + 1 + length g2"
    unfolding rule_brightness_amp by blast
  from hit_Some(1)[OF h[unfolded rule_brightness_amp]]
  have d: "drop i t = g1 @ CHR ''&'' # g2 @ rest" .
  obtain k where k: "j = i + k" using i le_Suc_ex by blast
  have "t ! j = (drop i t) ! k" using j k by simp
  then have dk: "(g1 @ CHR ''&'' # g2 @ rest) ! k = CHR ''&''" using tj d by simp
  note g = brightness_groups[OF h]
  have rw: "?y ! (i + length g1) = CHR ''?''"
    by (rule rules_rewrites[OF _ h]) (simp add: rules_def)
  consider "k < length g1" | "k = length g1" | "length g1 < k" "k \<le> length g1 + length g2"
    using e k by linarith
  then show False
  proof cases
    case 1
    with dk have "g1 ! k = CHR ''&''" by (simp add: nth_mid)
    with g(1) 1 show False by (metis nth_mem)
  next
    case 2
    with rw y k show False by simp
  next
    case 3
    with dk have "g2 ! (k - Suc (length g1)) = CHR ''&''" by (simp add: nth_mid)
    moreover have "k - Suc (length g1) < length g2" using 3 by simp
    ultimately show False using g(2) by (metis nth_mem)
  qed
qed

text \<open>
  C7: take a text in which no position belongs both to a match of rule 1
  (\<^verbatim>\<open>set-brightness\<close>) and to a match of rule 5 (\<^verbatim>\<open>start_date\<close>). Then rule 1 leaves every
  character matched by rule 5 as it is, and rule 5 leaves every character matched by
  rule 1 as it is. In the chain of the script, where rule 5 runs after rule 1, the text
  that rule 1 matched keeps, to the end, the value rule 1 gave it (this part needs no
  disjointness).
\<close>

theorem non_interference:
  "(\<forall>j<length t. \<not> (covers rule_brightness t j \<and> covers rule_start_date t j)) \<Longrightarrow>
     (\<forall>j<length t. covers rule_start_date t j \<longrightarrow> re_sub rule_brightness repl12 t ! j = t ! j)
     \<and> (\<forall>j<length t. covers rule_brightness t j \<longrightarrow> re_sub rule_start_date repl12 t ! j = t ! j)
     \<and> (\<forall>j<length t. covers rule_brightness t j \<longrightarrow>
           fix_content t ! j = re_sub rule_brightness repl12 t ! j)"
proof (intro conjI allI impI)
  assume d: "\<forall>j<length t. \<not> (covers rule_brightness t j \<and> covers rule_start_date t j)"
  show "re_sub rule_brightness repl12 t ! j = t ! j" if "j < length t" "covers rule_start_date t j" for j
  proof (rule ccontr)
    assume "re_sub rule_brightness repl12 t ! j \<noteq> t ! j"
    then have "covers rule_brightness t j"
      unfolding rule_brightness_amp by (rule changed_covers[OF that(1)])
    with d that show False by blast
  qed
  show "re_sub rule_start_date repl12 t ! j = t ! j" if "j < length t" "covers rule_brightness t j" for j
  proof (rule ccontr)
    assume "re_sub rule_start_date repl12 t ! j \<noteq> t ! j"
    then have "covers rule_start_date t j"
      unfolding rule_start_date_amp by (rule changed_covers[OF that(1)])
    with d that show False by blast
  qed
  show "fix_content t ! j = re_sub rule_brightness repl12 t ! j"
    if "j < length t" "covers rule_brightness t j" for j
    using that by (rule brightness_stays)
qed

theorem every_match_rewritten_witness:
  "rule_hue \<in> set rules
   \<and> match_at rule_hue hue_text 5 = Some [''l91/set-hue-saturation'', ''hue='']
   \<and> match_at rule_hue hue_text 39 = Some [''l92/set-hue-saturation'', ''hue='']
   \<and> re_sub rule_hue repl12 hue_text ! 27 = CHR ''?''
   \<and> re_sub rule_hue repl12 hue_text ! 61 = CHR ''?''
   \<and> re_sub rule_hue repl12 hue_text =
       ''a = '' @ [dquote] @ ''l91/set-hue-saturation?hue=1'' @ [dquote] @ '' +  ''
       @ [dquote] @ ''l92/set-hue-saturation?hue=2'' @ [dquote]"
proof -
  have r: "rule_hue \<in> set rules" by (simp add: rules_def)
  have m1: "match_at rule_hue hue_text 5 = Some [''l91/set-hue-saturation'', ''hue='']"
    by code_simp
  have m2: "match_at rule_hue hue_text 39 = Some [''l92/set-hue-saturation'', ''hue='']"
    by code_simp
  have e: "re_sub rule_hue repl12 hue_text =
       ''a = '' @ [dquote] @ ''l91/set-hue-saturation?hue=1'' @ [dquote] @ '' +  ''
       @ [dquote] @ ''l92/set-hue-saturation?hue=2'' @ [dquote]"
    by code_simp
  from every_match_rewritten[OF r, of hue_text] m1 m2
  have "re_sub rule_hue repl12 hue_text ! (5 + length ''l91/set-hue-saturation'') = CHR ''?''"
    "re_sub rule_hue repl12 hue_text ! (39 + length ''l92/set-hue-saturation'') = CHR ''?''"
    by blast+
  then show ?thesis using r m1 m2 e by simp
qed

lemma all_less_list_all: "(\<forall>j<n. P j) = list_all P [0..<n]"
  by (auto simp: list_all_iff)

theorem non_interference_witness:
  "list_all (\<lambda>j. \<not> (covers rule_brightness two_rules_text j \<and> covers rule_start_date two_rules_text j))
     [0..<length two_rules_text]
   \<and> covers rule_start_date two_rules_text 30
   \<and> re_sub rule_brightness repl12 two_rules_text ! 30 = two_rules_text ! 30
   \<and> covers rule_brightness two_rules_text 18
   \<and> re_sub rule_start_date repl12 two_rules_text ! 18 = two_rules_text ! 18
   \<and> fix_content two_rules_text ! 18 = re_sub rule_brightness repl12 two_rules_text ! 18"
proof -
  have d: "list_all (\<lambda>j. \<not> (covers rule_brightness two_rules_text j \<and> covers rule_start_date two_rules_text j))
     [0..<length two_rules_text]"
    by code_simp
  have c5: "covers rule_start_date two_rules_text 30" by code_simp
  have c1: "covers rule_brightness two_rules_text 18" by code_simp
  have l: "30 < length two_rules_text" "18 < length two_rules_text" by (simp_all add: two_rules_text_def)
  have d': "\<forall>j<length two_rules_text.
      \<not> (covers rule_brightness two_rules_text j \<and> covers rule_start_date two_rules_text j)"
    using d unfolding all_less_list_all .
  from non_interference[OF d'] c5 c1 l d show ?thesis by blast
qed

section \<open>Which brightness calls are rewritten\<close>

lemma amp_q_same: "list_all2 amp_q U U' \<Longrightarrow> CHR ''&'' \<notin> set U \<Longrightarrow> U' = U"
  by (induction U U' rule: list_all2_induct) (auto simp: amp_q_def)

lemma amp_q_decomp:
  assumes "list_all2 amp_q (pre @ U @ c # V @ post) y" "CHR ''&'' \<notin> set U" "CHR ''&'' \<notin> set V"
  shows "\<exists>pre' post'. length pre' = length pre
           \<and> y = pre' @ U @ (y ! (length pre + length U)) # V @ post'"
proof -
  from assms(1) obtain pre' r1 where y1: "y = pre' @ r1" and p: "list_all2 amp_q pre pre'"
    and r1: "list_all2 amp_q (U @ c # V @ post) r1"
    by (auto simp: list_all2_append1)
  from r1 obtain U' r2 where y2: "r1 = U' @ r2" and u: "list_all2 amp_q U U'"
    and r2: "list_all2 amp_q (c # V @ post) r2"
    by (auto simp: list_all2_append1)
  from r2 obtain x r3 where y3: "r2 = x # r3" and r3: "list_all2 amp_q (V @ post) r3"
    by (auto simp: list_all2_Cons1)
  from r3 obtain V' post' where y4: "r3 = V' @ post'" and v: "list_all2 amp_q V V'"
    by (auto simp: list_all2_append1)
  have U': "U' = U" and V': "V' = V" using u v assms(2,3) by (auto dest: amp_q_same)
  have lp: "length pre' = length pre" using p by (simp add: list_all2_lengthD)
  have y: "y = pre' @ U @ x # V @ post'" by (simp add: y1 y2 y3 y4 U' V')
  have x: "y ! (length pre + length U) = x" by (subst y) (simp add: nth_append lp)
  have "length pre' = length pre \<and> y = pre' @ U @ (y ! (length pre + length U)) # V @ post'"
    unfolding x using lp y by simp
  then show ?thesis by (intro exI)
qed

lemma l9_hit_intro:
  assumes "l9_ok w prm" "ds \<noteq> []" "list_all isdigit ds"
  shows "hit (l9 w prm) (''l9'' @ ds @ w @ CHR ''&'' # prm @ post) = Some (''l9'' @ ds @ w, prm, post)"
proof -
  from assms(1) have w: "w \<noteq> []" "\<not> isdigit (hd w)" by (simp_all add: l9_ok_def)
  let ?s = "''l9'' @ ds @ w @ CHR ''&'' # prm @ post"
  have d2: "drop 2 ?s = ds @ w @ CHR ''&'' # prm @ post" by simp
  have "takeWhile isdigit (w @ CHR ''&'' # prm @ post) = []" using w by (cases w) auto
  then have tw: "takeWhile isdigit (drop 2 ?s) = ds"
    unfolding d2 by (simp add: takeWhile_all[OF assms(3)])
  have "dropWhile isdigit (ds @ w @ CHR ''&'' # prm @ post) = w @ CHR ''&'' # prm @ post"
    using w assms(3) by (cases w) (auto simp: dropWhile_append list_all_iff)
  then have dw: "dropWhile isdigit (drop 2 ?s) = w @ CHR ''&'' # prm @ post" unfolding d2 .
  have pl: "prefix ''l9'' ?s" by simp
  have pw: "prefix (w @ CHR ''&'' # prm) (w @ CHR ''&'' # prm @ post)" by simp
  have dr: "drop (Suc (length w + length prm)) (w @ CHR ''&'' # prm @ post) = post" by simp
  show ?thesis
    unfolding l9_hit[OF w] tw dw using pl pw dr assms(2) by (simp only: if_True simp_thms)
qed

lemma amp_q_question: "list_all2 amp_q xs ys \<Longrightarrow> i < length xs \<Longrightarrow> xs ! i = CHR ''?'' \<Longrightarrow> ys ! i = CHR ''?''"
  by (auto simp: list_all2_conv_all_nth amp_q_def)

lemma isdigit_chars:
  "\<not> isdigit CHR ''&''" "\<not> isdigit CHR ''l''" "isdigit CHR ''9''"
  by (simp_all add: isdigit_def)

lemma digits_no_amp: "list_all isdigit ds \<Longrightarrow> CHR ''&'' \<notin> set ds"
  using isdigit_chars(1) by (auto simp: list_all_iff)

lemma brightness_rewritten:
  assumes "ds \<noteq> []" "list_all isdigit ds"
  shows "\<exists>pre' post'. length pre' = length pre
     \<and> fix_content (pre @ ''l9'' @ ds @ ''/set-brightness&level='' @ post)
         = pre' @ ''l9'' @ ds @ ''/set-brightness?level='' @ post'"
proof -
  define U where "U = ''l9'' @ ds @ ''/set-brightness''"
  define V where "V = ''level=''"
  define t where "t = pre @ U @ CHR ''&'' # V @ post"
  define y where "y = re_sub rule_brightness repl12 t"
  have nU: "CHR ''&'' \<notin> set U" using digits_no_amp[OF assms(2)] by (simp add: U_def)
  have nV: "CHR ''&'' \<notin> set V" by (simp add: V_def)
  have ty: "list_all2 amp_q t y" unfolding y_def rule_brightness_amp by (rule re_sub_amp_q)
  from amp_q_decomp[OF ty[unfolded t_def] nU nV] obtain pre1 post1 where
    l1: "length pre1 = length pre"
    and y1: "y = pre1 @ U @ (y ! (length pre + length U)) # V @ post1" by blast
  have "drop (length pre) t = ''l9'' @ ds @ ''/set-brightness'' @ CHR ''&'' # ''level='' @ post"
    by (simp add: t_def U_def V_def)
  then have "hit rule_brightness (drop (length pre) t) = Some (U, V, post)"
    unfolding rule_brightness_l9 U_def V_def
    using l9_hit_intro[OF l9_ok_rules(1) assms, of post] by simp
  then have q: "y ! (length pre + length U) = CHR ''?''"
    unfolding y_def by (rule rules_rewrites[rotated]) (simp add: rules_def)
  have y2: "y = pre1 @ U @ CHR ''?'' # V @ post1" using y1 unfolding q .
  define z where "z = fix_content t"
  have f: "z = apply_rules [rule_hue, rule_color_temperature, rule_lighting_effect,
      rule_start_date] y"
    by (simp add: z_def y_def fix_content_def apply_rules_def)
  have yz: "list_all2 amp_q y z"
    unfolding f by (rule apply_rules_amp_q) (use rule_amps in auto)
  from amp_q_decomp[OF yz[unfolded y2] nU nV] obtain pre2 post2 where
    l2: "length pre2 = length pre1"
    and z1: "z = pre2 @ U @ (z ! (length pre1 + length U)) # V @ post2" by blast
  have "y ! (length pre1 + length U) = CHR ''?''" using q l1 by simp
  moreover have "length pre1 + length U < length y" by (subst y2) simp
  ultimately have "z ! (length pre1 + length U) = CHR ''?''" using amp_q_question[OF yz] by blast
  with z1 have "z = pre2 @ U @ CHR ''?'' # V @ post2" by simp
  then have "fix_content (pre @ ''l9'' @ ds @ ''/set-brightness&level='' @ post)
         = pre2 @ ''l9'' @ ds @ ''/set-brightness?level='' @ post2"
    by (simp add: z_def t_def U_def V_def)
  moreover have "length pre2 = length pre" using l1 l2 by simp
  ultimately show ?thesis by blast
qed

lemma not_l9:
  assumes "A @ ''l9'' @ d = pre @ ''l'' @ c # ds" "list_all isdigit d" "isdigit c" "list_all isdigit ds"
  shows "c = CHR ''9''"
proof -
  from assms(1) have "rev (A @ ''l9'' @ d) = rev (pre @ ''l'' @ c # ds)" by simp
  then have e: "rev d @ CHR ''9'' # CHR ''l'' # rev A = (rev ds @ [c]) @ CHR ''l'' # rev pre" by simp
  have rd: "list_all isdigit (rev d)" using assms(2) by (simp add: list_all_iff)
  have "takeWhile isdigit (CHR ''9'' # CHR ''l'' # rev A) = [CHR ''9'']"
    using isdigit_chars by simp
  then have 1: "takeWhile isdigit (rev d @ CHR ''9'' # CHR ''l'' # rev A) = rev d @ [CHR ''9'']"
    by (simp only: takeWhile_all[OF rd])
  have rc: "list_all isdigit (rev ds @ [c])" using assms(3,4) by (simp add: list_all_iff)
  have "takeWhile isdigit (CHR ''l'' # rev pre) = []" using isdigit_chars by simp
  then have 2: "takeWhile isdigit ((rev ds @ [c]) @ CHR ''l'' # rev pre) = rev ds @ [c]"
    by (simp only: takeWhile_all[OF rc] append_Nil2)
  from 1 2 e have "rev d @ [CHR ''9''] = rev ds @ [c]" by simp
  then show ?thesis by simp
qed

lemma hit_align:
  assumes h: "hit (amp a b) (drop i t) = Some (g1, g2, rest)"
    and t: "t = P @ CHR ''&'' # Q" and j: "i + length g1 = length P"
  shows "take i t @ g1 = P \<and> g2 @ rest = Q"
proof -
  from hit_Some(1)[OF h] have d: "drop i t = g1 @ CHR ''&'' # g2 @ rest" .
  have il: "i \<le> length t" by (rule hit_le_length[OF h])
  define A where "A = take i t"
  have lA: "length A = i" unfolding A_def using il by simp
  have "A @ drop i t = t" unfolding A_def by (rule append_take_drop_id)
  then have "(A @ g1) @ CHR ''&'' # g2 @ rest = t" unfolding d by simp
  also have "t = P @ CHR ''&'' # Q" by (rule t)
  finally have e: "(A @ g1) @ CHR ''&'' # g2 @ rest = P @ CHR ''&'' # Q" .
  have l: "length (A @ g1) = length P" using lA j by simp
  have "A @ g1 = P \<and> CHR ''&'' # g2 @ rest = CHR ''&'' # Q"
    using e l by (metis append_eq_append_conv)
  then show ?thesis unfolding A_def by simp
qed

lemma sep_kept:
  assumes no: "\<And>i g1 g2 rest. hit (amp a b) (drop i (pre @ U @ CHR ''&'' # V @ post)) = Some (g1, g2, rest)
      \<Longrightarrow> i + length g1 = length pre + length U \<Longrightarrow> False"
    and nU: "CHR ''&'' \<notin> set U" and nV: "CHR ''&'' \<notin> set V"
  shows "\<exists>pre' post'. length pre' = length pre
     \<and> re_sub (amp a b) repl12 (pre @ U @ CHR ''&'' # V @ post) = pre' @ U @ CHR ''&'' # V @ post'"
proof -
  define t where "t = pre @ U @ CHR ''&'' # V @ post"
  define y where "y = re_sub (amp a b) repl12 t"
  define j where "j = length pre + length U"
  have ty: "list_all2 amp_q t y" unfolding y_def by (rule re_sub_amp_q)
  from amp_q_decomp[OF ty[unfolded t_def] nU nV] obtain pre1 post1 where
    l1: "length pre1 = length pre"
    and y1: "y = pre1 @ U @ (y ! j) # V @ post1" unfolding j_def by blast
  have jl: "j < length t" by (simp add: t_def j_def)
  have tj: "t ! j = CHR ''&''" by (simp add: t_def j_def nth_append)
  have yj: "y ! j = t ! j"
  proof (rule ccontr)
    assume "y ! j \<noteq> t ! j"
    then have ne: "re_sub (amp a b) repl12 t ! j \<noteq> t ! j" unfolding y_def .
    from re_sub_changed[OF jl ne] obtain i g1 g2 rest where
      hh: "hit (amp a b) (drop i t) = Some (g1, g2, rest)" and jj: "j = i + length g1"
      by blast
    have "i + length g1 = length pre + length U" using jj unfolding j_def by simp
    with hh[unfolded t_def] show False by (rule no)
  qed
  have y2: "y = pre1 @ U @ CHR ''&'' # V @ post1" using y1 unfolding yj tj .
  have "length pre1 = length pre
     \<and> re_sub (amp a b) repl12 (pre @ U @ CHR ''&'' # V @ post) = pre1 @ U @ CHR ''&'' # V @ post1"
    using l1 y2[unfolded y_def t_def] by (rule conjI)
  then show ?thesis by (intro exI)
qed

lemma sep_kept_param:
  assumes g2: "\<And>s g1 g2 rest. hit (amp a b) s = Some (g1, g2, rest) \<Longrightarrow> g2 = prm"
    and mism: "\<And>r q. prm @ r \<noteq> V @ q"
    and nU: "CHR ''&'' \<notin> set U" and nV: "CHR ''&'' \<notin> set V"
  shows "\<exists>pre' post'. length pre' = length pre
     \<and> re_sub (amp a b) repl12 (pre @ U @ CHR ''&'' # V @ post) = pre' @ U @ CHR ''&'' # V @ post'"
proof (rule sep_kept[OF _ nU nV])
  fix i g1 g2 rest
  assume h: "hit (amp a b) (drop i (pre @ U @ CHR ''&'' # V @ post)) = Some (g1, g2, rest)"
    and j: "i + length g1 = length pre + length U"
  have t: "pre @ U @ CHR ''&'' # V @ post = (pre @ U) @ CHR ''&'' # (V @ post)" by simp
  from hit_align[OF h t] j have "g2 @ rest = V @ post" by simp
  with g2[OF h] mism show False by blast
qed

lemma l9_group2:
  assumes "w \<noteq> []" "\<not> isdigit (hd w)" "hit (l9 w prm) s = Some (g1, g2, rest)"
  shows "g2 = prm" "g1 = ''l9'' @ takeWhile isdigit (drop 2 s) @ w"
  using assms(3) unfolding l9_hit[OF assms(1,2)] by (auto split: if_splits)

lemma slash_ok:
  "''/set-brightness'' \<noteq> []" "\<not> isdigit (hd ''/set-brightness'')"
  "''/set-hue-saturation'' \<noteq> []" "\<not> isdigit (hd ''/set-hue-saturation'')"
  "''/set-color-temperature'' \<noteq> []" "\<not> isdigit (hd ''/set-color-temperature'')"
  "''/set-lighting-effect'' \<noteq> []" "\<not> isdigit (hd ''/set-lighting-effect'')"
  by (simp_all add: isdigit_def)

lemma l9_kept_param:
  assumes w: "w \<noteq> []" "\<not> isdigit (hd w)"
    and mism: "\<And>r q. prm @ r \<noteq> V @ q"
    and nU: "CHR ''&'' \<notin> set U" and nV: "CHR ''&'' \<notin> set V"
  shows "\<exists>pre' post'. length pre' = length pre
     \<and> re_sub (l9 w prm) repl12 (pre @ U @ CHR ''&'' # V @ post) = pre' @ U @ CHR ''&'' # V @ post'"
  unfolding l9_def
proof (rule sep_kept_param[where prm = prm, OF _ mism nU nV])
  fix s g1 g2 rest
  assume "hit (amp (lit ''l9'' @ [Plus Digit] @ lit w) (lit prm)) s = Some (g1, g2, rest)"
  then have "hit (l9 w prm) s = Some (g1, g2, rest)" unfolding l9_def .
  then show "g2 = prm" by (rule l9_group2(1)[OF w])
qed

lemma start_date_kept_param:
  assumes mism: "\<And>r q. ''start_date='' @ r \<noteq> V @ q"
    and nU: "CHR ''&'' \<notin> set U" and nV: "CHR ''&'' \<notin> set V"
  shows "\<exists>pre' post'. length pre' = length pre
     \<and> re_sub rule_start_date repl12 (pre @ U @ CHR ''&'' # V @ post) = pre' @ U @ CHR ''&'' # V @ post'"
  unfolding rule_start_date_amp
proof (rule sep_kept_param[where prm = "''start_date=''", OF _ mism nU nV])
  fix s g1 g2 rest
  assume "hit (amp (lit ''p'' @ [Plus Digit] @ lit ''/get-'' @ [Plus NotQuote]) (lit ''start_date='')) s
      = Some (g1, g2, rest)"
  then have "hit rule_start_date s = Some (g1, g2, rest)" unfolding rule_start_date_amp .
  then show "g2 = ''start_date=''" by (rule start_date_hit(1))
qed

lemma other_digit_kept:
  assumes c: "isdigit c" "c \<noteq> CHR ''9''" and ds: "list_all isdigit ds"
    and p: "p \<in> set rules"
  shows "\<exists>pre' post'. length pre' = length pre
     \<and> re_sub p repl12 (pre @ (''l'' @ c # ds @ ''/set-brightness'') @ CHR ''&'' # ''level='' @ post)
         = pre' @ (''l'' @ c # ds @ ''/set-brightness'') @ CHR ''&'' # ''level='' @ post'"
proof -
  define U where "U = ''l'' @ c # ds @ ''/set-brightness''"
  define V where "V = ''level=''"
  have ca: "c \<noteq> CHR ''&''" using c(1) isdigit_chars(1) by auto
  have nU: "CHR ''&'' \<notin> set U" using digits_no_amp[OF ds] ca by (simp add: U_def)
  have nV: "CHR ''&'' \<notin> set V" by (simp add: V_def)
  from p consider "p = rule_brightness" | "p = rule_hue" | "p = rule_color_temperature"
    | "p = rule_lighting_effect" | "p = rule_start_date"
    unfolding rules_def by auto
  then have "\<exists>pre' post'. length pre' = length pre
     \<and> re_sub p repl12 (pre @ U @ CHR ''&'' # V @ post) = pre' @ U @ CHR ''&'' # V @ post'"
  proof cases
    case 1
    show ?thesis unfolding 1 rule_brightness_amp
    proof (rule sep_kept[OF _ nU nV])
      fix i g1 g2 rest
      let ?t = "pre @ U @ CHR ''&'' # V @ post"
      assume h: "hit (amp (lit ''l9'' @ [Plus Digit] @ lit ''/set-brightness'') (lit ''level=''))
          (drop i ?t) = Some (g1, g2, rest)"
        and j: "i + length g1 = length pre + length U"
      have t: "?t = (pre @ U) @ CHR ''&'' # (V @ post)" by simp
      from hit_align[OF h t] j have a: "take i ?t @ g1 = pre @ U" by simp
      define d where "d = takeWhile isdigit (drop 2 (drop i ?t))"
      have dd: "list_all isdigit d" unfolding d_def by (rule list_all_takeWhile)
      have g1: "g1 = ''l9'' @ d @ ''/set-brightness''"
        unfolding d_def by (rule l9_group2(2)[OF slash_ok(1,2) h[folded l9_def]])
      from a have "(take i ?t @ ''l9'' @ d) @ ''/set-brightness''
          = (pre @ ''l'' @ c # ds) @ ''/set-brightness''"
        unfolding g1 U_def by simp
      then have "take i ?t @ ''l9'' @ d = pre @ ''l'' @ c # ds" by (simp only: append_same_eq)
      from not_l9[OF this dd c(1) ds] c(2) show False by simp
    qed
  next
    case 2
    show ?thesis unfolding 2 rule_hue_l9
      by (rule l9_kept_param[OF slash_ok(3,4) _ nU nV]) (simp add: V_def)
  next
    case 3
    show ?thesis unfolding 3 rule_color_temperature_l9
      by (rule l9_kept_param[OF slash_ok(5,6) _ nU nV]) (simp add: V_def)
  next
    case 4
    show ?thesis unfolding 4 rule_lighting_effect_l9
      by (rule l9_kept_param[OF slash_ok(7,8) _ nU nV]) (simp add: V_def)
  next
    case 5
    show ?thesis unfolding 5
      by (rule start_date_kept_param[OF _ nU nV]) (simp add: V_def)
  qed
  then show ?thesis unfolding U_def V_def .
qed

lemma other_digit_unchanged:
  assumes c: "isdigit c" "c \<noteq> CHR ''9''" and ds: "list_all isdigit ds"
  shows "\<exists>pre' post'. length pre' = length pre
     \<and> fix_content (pre @ ''l'' @ c # ds @ ''/set-brightness&level='' @ post)
         = pre' @ ''l'' @ c # ds @ ''/set-brightness&level='' @ post'"
proof -
  define F where "F = (\<lambda>p q. p @ (''l'' @ c # ds @ ''/set-brightness'') @ CHR ''&'' # ''level='' @ q)"
  have step: "\<exists>p' q'. length p' = length p \<and> re_sub r repl12 (F p q) = F p' q'"
    if "r \<in> set rules" for r p q
    unfolding F_def by (rule other_digit_kept[OF c ds that])
  have r: "rule_brightness \<in> set rules" "rule_hue \<in> set rules" "rule_color_temperature \<in> set rules"
    "rule_lighting_effect \<in> set rules" "rule_start_date \<in> set rules"
    by (simp_all add: rules_def)
  from step[OF r(1), of pre post] obtain p1 q1 where
    1: "length p1 = length pre" "re_sub rule_brightness repl12 (F pre post) = F p1 q1" by blast
  from step[OF r(2), of p1 q1] obtain p2 q2 where
    2: "length p2 = length p1" "re_sub rule_hue repl12 (F p1 q1) = F p2 q2" by blast
  from step[OF r(3), of p2 q2] obtain p3 q3 where
    3: "length p3 = length p2" "re_sub rule_color_temperature repl12 (F p2 q2) = F p3 q3" by blast
  from step[OF r(4), of p3 q3] obtain p4 q4 where
    4: "length p4 = length p3" "re_sub rule_lighting_effect repl12 (F p3 q3) = F p4 q4" by blast
  from step[OF r(5), of p4 q4] obtain p5 q5 where
    5: "length p5 = length p4" "re_sub rule_start_date repl12 (F p4 q4) = F p5 q5" by blast
  have "fix_content (F pre post) = F p5 q5"
    by (simp only: fix_content_def Let_def 1(2) 2(2) 3(2) 4(2) 5(2))
  moreover have "length p5 = length pre" using 1(1) 2(1) 3(1) 4(1) 5(1) by simp
  ultimately have "length p5 = length pre
     \<and> fix_content (pre @ ''l'' @ c # ds @ ''/set-brightness&level='' @ post)
         = p5 @ ''l'' @ c # ds @ ''/set-brightness&level='' @ q5"
    unfolding F_def by simp
  then show ?thesis by (intro exI)
qed

text \<open>
  C3: in every text, a substring \<^verbatim>\<open>l9<digits>/set-brightness&level=\<close> with at least one
  digit behind the 9 comes out of the five rules with its ampersand rewritten to a
  question mark, at the same place; a substring \<^verbatim>\<open>l<digits>/set-brightness&level=\<close> whose
  digits do not begin with 9, such as \<^verbatim>\<open>l8123/set-brightness&level=50\<close>, comes out
  unchanged, at the same place. The text before and behind keeps its length.
\<close>

theorem scope_precision:
  "(ds \<noteq> [] \<and> list_all isdigit ds \<longrightarrow>
      (\<exists>pre' post'. length pre' = length pre
         \<and> fix_content (pre @ ''l9'' @ ds @ ''/set-brightness&level='' @ post)
             = pre' @ ''l9'' @ ds @ ''/set-brightness?level='' @ post'))
   \<and> (isdigit c \<and> c \<noteq> CHR ''9'' \<and> list_all isdigit ds \<longrightarrow>
      (\<exists>pre' post'. length pre' = length pre
         \<and> fix_content (pre @ ''l'' @ c # ds @ ''/set-brightness&level='' @ post)
             = pre' @ ''l'' @ c # ds @ ''/set-brightness&level='' @ post'))"
  using brightness_rewritten[of ds pre post] other_digit_unchanged[of c ds pre post]
  by blast

theorem scope_precision_witness:
  "''123'' \<noteq> [] \<and> list_all isdigit ''123''
   \<and> fix_content (''a '' @ ''l9'' @ ''123'' @ ''/set-brightness&level='' @ ''50'')
       = ''a l9123/set-brightness?level=50''
   \<and> isdigit CHR ''8'' \<and> CHR ''8'' \<noteq> CHR ''9''
   \<and> fix_content (''a '' @ ''l'' @ CHR ''8'' # ''123'' @ ''/set-brightness&level='' @ ''50'')
       = ''a l8123/set-brightness&level=50''"
proof -
  have d: "''123'' \<noteq> []" "list_all isdigit ''123''" "isdigit CHR ''8''" "CHR ''8'' \<noteq> CHR ''9''"
    by (simp_all add: isdigit_def)
  have e1: "fix_content (''a '' @ ''l9'' @ ''123'' @ ''/set-brightness&level='' @ ''50'')
       = ''a l9123/set-brightness?level=50''" by code_simp
  have e2: "fix_content (''a '' @ ''l'' @ CHR ''8'' # ''123'' @ ''/set-brightness&level='' @ ''50'')
       = ''a l8123/set-brightness&level=50''" by code_simp
  from scope_precision[of "''123''" "''a ''" "''50''" "CHR ''8''"] d e1 e2
  show ?thesis by blast
qed

section \<open>A double quote ends every match\<close>

lemma takeWhile_stop: "\<not> P q \<Longrightarrow> takeWhile P (s @ q # y) = takeWhile P s"
  by (induction s) auto

lemma first_down_cong:
  "(\<And>k. 1 \<le> k \<Longrightarrow> k \<le> n \<Longrightarrow> f k = g k) \<Longrightarrow> first_down f n = first_down g n"
  by (induction n) (auto split: option.splits)

lemma rmatch_quote:
  "list_all stops_at_quote r \<Longrightarrow> rmatch r (x @ dquote # y) = rmatch r x"
proof (induction r x rule: rmatch.induct)
  case (1 s)
  then show ?case by simp
next
  case (2 a r)
  then show ?case by simp
next
  case (3 a r c s)
  then show ?case by simp
next
  case (4 a r s)
  from "4.prems" have a: "\<not> accepts a dquote" and r: "list_all stops_at_quote r" by simp_all
  let ?n = "length (takeWhile (accepts a) s)"
  have n: "takeWhile (accepts a) (s @ dquote # y) = takeWhile (accepts a) s"
    by (rule takeWhile_stop[of "accepts a" dquote, OF a])
  have nl: "?n \<le> length s" by (rule length_takeWhile_le)
  have fg: "rmatch r (drop k (s @ dquote # y)) = rmatch r (drop k s)" if "k \<le> ?n" for k
  proof -
    have "drop k (s @ dquote # y) = drop k s @ dquote # y" using that nl by simp
    then show ?thesis using "4.IH"[OF r, of k] by simp
  qed
  have fd: "first_down (\<lambda>k. rmatch r (drop k (s @ dquote # y))) ?n
      = first_down (\<lambda>k. rmatch r (drop k s)) ?n"
    by (rule first_down_cong) (rule fg)
  have L: "rmatch (Plus a # r) (s @ dquote # y) =
      (case first_down (\<lambda>k. rmatch r (drop k s)) ?n of
         None \<Rightarrow> None | Some (k, ps) \<Rightarrow> Some (take k (s @ dquote # y) # ps))"
    by (simp only: rmatch.simps n fd)
  have R: "rmatch (Plus a # r) s =
      (case first_down (\<lambda>k. rmatch r (drop k s)) ?n of
         None \<Rightarrow> None | Some (k, ps) \<Rightarrow> Some (take k s # ps))"
    by (simp only: rmatch.simps)
  show ?case
  proof (cases "first_down (\<lambda>k. rmatch r (drop k s)) ?n")
    case None
    show ?thesis by (simp only: L R None option.case)
  next
    case (Some kp)
    obtain k ps where kp: "kp = (k, ps)" by (cases kp) auto
    from first_down_Some[OF Some[unfolded kp]] have "k \<le> ?n" by simp
    then have tk: "take k (s @ dquote # y) = take k s" using nl by simp
    show ?thesis by (simp only: L R Some kp option.case prod.case tk)
  qed
qed

lemma hit_quote:
  assumes q: "list_all stops_at_quote (items (amp a b))"
  shows "hit (amp a b) (x @ dquote # y) = map_option (\<lambda>(g1, g2, rest). (g1, g2, rest @ dquote # y)) (hit (amp a b) x)"
proof (cases "rmatch (items (amp a b)) x")
  case None
  then show ?thesis unfolding hit_eq rmatch_quote[OF q] by simp
next
  case (Some ms)
  from rmatch_sound[OF Some] have "prefix (concat ms) x" by simp
  then have "length (concat ms) \<le> length x" by (rule prefix_length_le)
  then show ?thesis unfolding hit_eq rmatch_quote[OF q] Some by simp
qed

lemma re_sub_quote:
  assumes q: "list_all stops_at_quote (items (amp a b))"
  shows "re_sub (amp a b) repl12 (x @ dquote # y)
     = re_sub (amp a b) repl12 x @ dquote # re_sub (amp a b) repl12 y"
proof (induction x rule: hit_induct[of _ a b])
  case Nil
  have "hit (amp a b) ([] @ dquote # y) = None" unfolding hit_quote[OF q] by (simp add: hit_Nil)
  then show ?case by (simp add: re_sub_miss re_sub_Nil)
next
  case (miss c cs)
  have "hit (amp a b) ((c # cs) @ dquote # y) = None" unfolding hit_quote[OF q] miss.hyps by simp
  then have "hit (amp a b) (c # cs @ dquote # y) = None" by simp
  then show ?case using miss by (simp add: re_sub_miss)
next
  case (hit g1 g2 rest)
  have "hit (amp a b) ((g1 @ CHR ''&'' # g2 @ rest) @ dquote # y) = Some (g1, g2, rest @ dquote # y)"
    unfolding hit_quote[OF q] hit.hyps by simp
  from re_sub_hit[OF this] re_sub_hit[OF hit.hyps] hit.IH show ?case by simp
qed

lemma rules_stop_at_quote: "p \<in> set rules \<Longrightarrow> list_all stops_at_quote (items p)"
  by (auto simp: rules_def rule_brightness_def rule_hue_def rule_color_temperature_def
      rule_lighting_effect_def rule_start_date_def lit_def isdigit_def)

lemma rules_quote:
  assumes "p \<in> set rules"
  shows "re_sub p repl12 (x @ dquote # y) = re_sub p repl12 x @ dquote # re_sub p repl12 y"
proof -
  from rules_amp[OF assms] obtain a b where p: "p = amp a b" by blast
  show ?thesis using re_sub_quote[of a b x y] rules_stop_at_quote[OF assms] unfolding p by simp
qed

lemma fix_content_quote:
  "fix_content (x @ dquote # y) = fix_content x @ dquote # fix_content y"
proof -
  have r: "rule_brightness \<in> set rules" "rule_hue \<in> set rules" "rule_color_temperature \<in> set rules"
    "rule_lighting_effect \<in> set rules" "rule_start_date \<in> set rules"
    by (simp_all add: rules_def)
  show ?thesis
    by (simp only: fix_content_def Let_def rules_quote[OF r(1)] rules_quote[OF r(2)]
        rules_quote[OF r(3)] rules_quote[OF r(4)] rules_quote[OF r(5)])
qed

section \<open>The run over the two files\<close>

lemma patch_files_stdout: "stdout (fst (patch_files fs w)) = stdout w"
  by (induction fs arbitrary: w)
    (auto simp: read_text_def write_text_def split: sum.splits option.splits if_splits stored.splits)

lemma patch_files_Cons:
  "patch_files (file # rest) w =
     (case disk w file of
        None \<Rightarrow> (w, Some FileNotFoundError)
      | Some data \<Rightarrow>
          if \<not> readable w file then (w, Some PermissionError)
          else (case data of
                  Undecodable \<Rightarrow> (w, Some UnicodeDecodeError)
                | Text t \<Rightarrow>
                    if \<not> writable w file then (w, Some PermissionError)
                    else patch_files rest
                           (w\<lparr>disk := (disk w)(file \<mapsto> Text (written_back (linesep w) t))\<rparr>)))"
  by (simp add: read_text_def write_text_def written_back_def split: option.splits stored.splits)

lemma run_stdout:
  "stdout (fst (run w)) =
     (if snd (run w) = None then stdout w @ ''Fixed URL constructions'' @ [LF] else stdout w)"
proof (cases "patch_files files w")
  case (Pair w' e)
  with patch_files_stdout[of files w] have s: "stdout w' = stdout w" by simp
  show ?thesis using Pair s by (cases e) (simp_all add: run_def)
qed

text \<open>
  C2: wherever the two quoted URLs of the scenario stand in a text, they come out with
  their first separator rewritten, and the text before, between and behind them is
  transformed on its own. When the run ends without error, it has written the line
  \<^verbatim>\<open>Fixed URL constructions\<close> to standard output, and nothing else.
\<close>

theorem end_to_end:
  "fix_content (pre @ [dquote] @ ''http://host/l9001/set-brightness&level=80'' @ [dquote] @ mid
       @ [dquote] @ ''http://host/p5/get-record&start_date=2024-01-01'' @ [dquote] @ post)
     = fix_content pre @ [dquote] @ ''http://host/l9001/set-brightness?level=80'' @ [dquote]
       @ fix_content mid
       @ [dquote] @ ''http://host/p5/get-record?start_date=2024-01-01'' @ [dquote] @ fix_content post
   \<and> (snd (run w) = None \<longrightarrow>
        stdout (fst (run w)) = stdout w @ ''Fixed URL constructions'' @ [LF])"
proof -
  have 1: "fix_content ''http://host/l9001/set-brightness&level=80''
      = ''http://host/l9001/set-brightness?level=80''" by code_simp
  have 2: "fix_content ''http://host/p5/get-record&start_date=2024-01-01''
      = ''http://host/p5/get-record?start_date=2024-01-01''" by code_simp
  have "fix_content (pre @ dquote # ''http://host/l9001/set-brightness&level=80'' @ dquote # mid
       @ dquote # ''http://host/p5/get-record&start_date=2024-01-01'' @ dquote # post)
     = fix_content pre @ dquote # fix_content ''http://host/l9001/set-brightness&level=80''
       @ dquote # fix_content mid
       @ dquote # fix_content ''http://host/p5/get-record&start_date=2024-01-01''
       @ dquote # fix_content post"
    by (simp only: fix_content_quote)
  then show ?thesis unfolding 1 2 using run_stdout[of w] by simp
qed

theorem end_to_end_witness:
  "fix_content scenario_text = scenario_fixed
   \<and> snd (run scenario_world) = None
   \<and> stdout (fst (run scenario_world)) = ''Fixed URL constructions'' @ [LF]
   \<and> disk (fst (run scenario_world)) ''TapoLightStripOperations.cs'' = Some (Text scenario_fixed)
   \<and> disk (fst (run scenario_world)) ''TapoPlugOperations.cs'' = Some (Text scenario_fixed)"
proof -
  have f: "fix_content [] = []" by code_simp
  have a: "fix_content '' and '' = '' and ''" by code_simp
  have t: "fix_content scenario_text = scenario_fixed"
    using end_to_end[of "[]" "'' and ''" "[]" scenario_world]
    by (simp add: scenario_text_def scenario_fixed_def f a)
  have n: "snd (run scenario_world) = None" by code_simp
  have s: "stdout scenario_world = []" by (simp add: scenario_world_def)
  have o: "stdout (fst (run scenario_world)) = ''Fixed URL constructions'' @ [LF]"
    using end_to_end[of "[]" "'' and ''" "[]" scenario_world] n s by simp
  have d1: "disk (fst (run scenario_world)) ''TapoLightStripOperations.cs'' = Some (Text scenario_fixed)"
    by code_simp
  have d2: "disk (fst (run scenario_world)) ''TapoPlugOperations.cs'' = Some (Text scenario_fixed)"
    by code_simp
  show ?thesis using t n o d1 d2 by simp
qed

lemma patch_files_fail:
  "\<not> usable w file \<Longrightarrow> \<exists>e. patch_files (file # rest) w = (w, Some e)"
  unfolding patch_files_Cons usable_def
  by (auto split: option.splits stored.splits)

lemma usable_update:
  "file' \<noteq> file \<Longrightarrow> usable (w\<lparr>disk := (disk w)(file \<mapsto> d)\<rparr>) file' = usable w file'"
  by (simp add: usable_def split: option.splits stored.splits)

text \<open>
  C8: a file that cannot be opened or decoded ends the run at once with the error, and
  nothing is printed. When the first file fails, the world is as it was. When the first
  file has been rewritten and the second one fails (missing, unreadable, undecodable or
  unwritable), the error comes out with the first file still holding its rewritten
  content: nothing is rolled back.
\<close>

theorem no_rollback:
  "(disk w ''TapoLightStripOperations.cs'' = Some (Text t1)
      \<and> readable w ''TapoLightStripOperations.cs'' \<and> writable w ''TapoLightStripOperations.cs''
      \<and> \<not> usable w ''TapoPlugOperations.cs'' \<longrightarrow>
        (\<exists>e. run w =
           (w\<lparr>disk := (disk w)(''TapoLightStripOperations.cs'' \<mapsto> Text (written_back (linesep w) t1))\<rparr>,
            Some e)))
   \<and> (\<not> usable w ''TapoLightStripOperations.cs'' \<longrightarrow> (\<exists>e. run w = (w, Some e)))"
proof (intro conjI impI)
  assume a: "disk w ''TapoLightStripOperations.cs'' = Some (Text t1)
      \<and> readable w ''TapoLightStripOperations.cs'' \<and> writable w ''TapoLightStripOperations.cs''
      \<and> \<not> usable w ''TapoPlugOperations.cs''"
  let ?w1 = "w\<lparr>disk := (disk w)(''TapoLightStripOperations.cs'' \<mapsto> Text (written_back (linesep w) t1))\<rparr>"
  have "\<not> usable ?w1 ''TapoPlugOperations.cs''"
    using a by (simp add: usable_update)
  from patch_files_fail[OF this, of "[]"] obtain e where
    e: "patch_files [''TapoPlugOperations.cs''] ?w1 = (?w1, Some e)" by blast
  have "patch_files files w = (?w1, Some e)"
    unfolding files_def patch_files_Cons[of "''TapoLightStripOperations.cs''"] using a e by simp
  then have "run w = (?w1, Some e)" by (simp add: run_def)
  then show "\<exists>e. run w = (?w1, Some e)" by (intro exI)
next
  assume "\<not> usable w ''TapoLightStripOperations.cs''"
  from patch_files_fail[OF this, of "[''TapoPlugOperations.cs'']"] obtain e where
    "patch_files files w = (w, Some e)" unfolding files_def by blast
  then have "run w = (w, Some e)" by (simp add: run_def)
  then show "\<exists>e. run w = (w, Some e)" by (intro exI)
qed

theorem no_rollback_witness:
  "disk locked_world ''TapoLightStripOperations.cs'' = Some (Text scenario_text)
   \<and> \<not> usable locked_world ''TapoPlugOperations.cs''
   \<and> snd (run locked_world) = Some PermissionError
   \<and> disk (fst (run locked_world)) ''TapoLightStripOperations.cs'' = Some (Text scenario_fixed)
   \<and> disk (fst (run locked_world)) ''TapoPlugOperations.cs'' = Some (Text scenario_text)
   \<and> stdout (fst (run locked_world)) = []
   \<and> \<not> usable empty_world ''TapoLightStripOperations.cs''
   \<and> run empty_world = (empty_world, Some FileNotFoundError)"
proof -
  have h: "disk locked_world ''TapoLightStripOperations.cs'' = Some (Text scenario_text)"
    "readable locked_world ''TapoLightStripOperations.cs''"
    "writable locked_world ''TapoLightStripOperations.cs''"
    "\<not> usable locked_world ''TapoPlugOperations.cs''"
    by (simp_all add: locked_world_def scenario_world_def usable_def)
  have wb: "written_back (linesep locked_world) scenario_text = scenario_fixed" by code_simp
  from no_rollback[of locked_world scenario_text] h obtain e where
    r: "run locked_world =
      (locked_world\<lparr>disk := (disk locked_world)(''TapoLightStripOperations.cs'' \<mapsto>
          Text (written_back (linesep locked_world) scenario_text))\<rparr>, Some e)"
    by blast
  have e: "snd (run locked_world) = Some PermissionError" by code_simp
  have d1: "disk (fst (run locked_world)) ''TapoLightStripOperations.cs'' = Some (Text scenario_fixed)"
    unfolding r by (simp add: wb)
  have d2: "disk (fst (run locked_world)) ''TapoPlugOperations.cs'' = Some (Text scenario_text)"
    unfolding r by (simp add: locked_world_def scenario_world_def)
  have so: "stdout (fst (run locked_world)) = []"
    unfolding r by (simp add: locked_world_def scenario_world_def)
  have u: "\<not> usable empty_world ''TapoLightStripOperations.cs''"
    by (simp add: empty_world_def scenario_world_def usable_def)
  from no_rollback[of empty_world] u obtain e' where r': "run empty_world = (empty_world, Some e')"
    by blast
  have "snd (run empty_world) = Some FileNotFoundError" by code_simp
  with r' have "run empty_world = (empty_world, Some FileNotFoundError)" by simp
  with h(1,4) e d1 d2 so u show ?thesis by simp
qed

section \<open>A text that no pattern matches\<close>

lemma re_sub_no_match: "\<not> re_search p s \<Longrightarrow> re_sub p repl s = s"
  by (induction s) (auto simp: re_sub.simps)

lemma no_match_fix: "no_match content \<Longrightarrow> fix_content content = content"
  by (simp add: no_match_def rules_def fix_content_def re_sub_no_match)

lemma universal_newlines_other:
  "c \<noteq> CR \<Longrightarrow> universal_newlines (c # cs) = c # universal_newlines cs"
  by (cases cs) auto

lemma universal_newlines_id: "CR \<notin> set t \<Longrightarrow> universal_newlines t = t"
  by (induction t) (auto simp: universal_newlines_other)

lemma write_newlines_LF: "write_newlines [LF] t = t"
  by (induction t) (auto simp: write_newlines_def)

lemma universal_write_crlf:
  "CR \<notin> set t \<Longrightarrow> universal_newlines (write_newlines [CR, LF] t) = t"
proof (induction t)
  case Nil
  then show ?case by (simp add: write_newlines_def)
next
  case (Cons c t)
  then have ih: "universal_newlines (write_newlines [CR, LF] t) = t" and c: "c \<noteq> CR" by auto
  have w: "write_newlines [CR, LF] (c # t)
      = (if c = LF then [CR, LF] else [c]) @ write_newlines [CR, LF] t"
    by (simp add: write_newlines_def)
  show ?case
  proof (cases "c = LF")
    case True
    then show ?thesis unfolding w using ih by simp
  next
    case False
    then show ?thesis unfolding w using ih c by (simp add: universal_newlines_other)
  qed
qed

text \<open>
  C6, as stated, fails: the file is not written back byte for byte. In the first world
  the first file holds \<^verbatim>\<open>a\r\nb\<close>, which no pattern matches; on a platform that writes
  \<^verbatim>\<open>\n\<close> the run ends without error and leaves \<^verbatim>\<open>a\nb\<close> in the file. In the second
  world the file holds \<^verbatim>\<open>a\nb\<close> and the platform writes \<^verbatim>\<open>\r\n\<close>: the file ends as
  \<^verbatim>\<open>a\r\nb\<close>.
\<close>

theorem no_match_file_changes:
  "no_match (universal_newlines (''a'' @ [CR, LF] @ ''b''))
   \<and> disk crlf_world ''TapoLightStripOperations.cs'' = Some (Text (''a'' @ [CR, LF] @ ''b''))
   \<and> snd (run crlf_world) = None
   \<and> disk (fst (run crlf_world)) ''TapoLightStripOperations.cs'' = Some (Text (''a'' @ [LF] @ ''b''))
   \<and> no_match (universal_newlines (''a'' @ [LF] @ ''b''))
   \<and> disk lf_world ''TapoLightStripOperations.cs'' = Some (Text (''a'' @ [LF] @ ''b''))
   \<and> snd (run lf_world) = None
   \<and> disk (fst (run lf_world)) ''TapoLightStripOperations.cs'' = Some (Text (''a'' @ [CR, LF] @ ''b''))"
proof -
  have 1: "no_match (universal_newlines (''a'' @ [CR, LF] @ ''b''))" by code_simp
  have 2: "disk crlf_world ''TapoLightStripOperations.cs'' = Some (Text (''a'' @ [CR, LF] @ ''b''))"
    by (simp add: crlf_world_def)
  have 3: "snd (run crlf_world) = None" by code_simp
  have 4: "disk (fst (run crlf_world)) ''TapoLightStripOperations.cs''
      = Some (Text (''a'' @ [LF] @ ''b''))" by code_simp
  have 5: "no_match (universal_newlines (''a'' @ [LF] @ ''b''))" by code_simp
  have 6: "disk lf_world ''TapoLightStripOperations.cs'' = Some (Text (''a'' @ [LF] @ ''b''))"
    by (simp add: lf_world_def)
  have 7: "snd (run lf_world) = None" by code_simp
  have 8: "disk (fst (run lf_world)) ''TapoLightStripOperations.cs''
      = Some (Text (''a'' @ [CR, LF] @ ''b''))" by code_simp
  show ?thesis using 1 2 3 4 5 6 7 8 by (intro conjI)
qed

lemma universal_newlines_no_CR: "CR \<notin> set (universal_newlines t)"
  by (induction t rule: universal_newlines.induct) auto

lemma world_same: "disk w file = Some d \<Longrightarrow> w\<lparr>disk := (disk w)(file \<mapsto> d)\<rparr> = w"
  by (simp add: fun_upd_idem)

lemma patch_files_one:
  assumes "disk w file = Some (Text t)" "readable w file" "writable w file"
  shows "patch_files [file] w =
    (w\<lparr>disk := (disk w)(file \<mapsto> Text (written_back (linesep w) t))\<rparr>, None)"
  unfolding patch_files_Cons using assms by simp

text \<open>
  C6, amended: on a text that none of the five patterns matches the transformation is
  the identity. The file is rewritten all the same (a file that may not be written
  fails the run), and what is stored is the text as it was read, each newline written
  as the platform's line separator. So the stored file, and with it the whole world, is
  unchanged when its line endings already are the platform's: no \<^verbatim>\<open>\r\<close> where the
  platform writes \<^verbatim>\<open>\n\<close>, only \<^verbatim>\<open>\r\n\<close> where it writes \<^verbatim>\<open>\r\n\<close>. With other line
  endings the stored text changes, and reading the file again still gives the text that
  was read before.
\<close>

theorem no_match_no_op:
  "(no_match content \<longrightarrow> fix_content content = content)
   \<and> (disk w file = Some (Text t) \<and> readable w file \<and> no_match (universal_newlines t) \<longrightarrow>
        (writable w file \<longrightarrow>
           patch_files [file] w =
             (w\<lparr>disk := (disk w)(file \<mapsto> Text (write_newlines (linesep w) (universal_newlines t)))\<rparr>,
              None))
        \<and> (\<not> writable w file \<longrightarrow> patch_files [file] w = (w, Some PermissionError)))
   \<and> (disk w file = Some (Text t) \<and> readable w file \<and> writable w file \<and> no_match t
        \<and> CR \<notin> set t \<and> linesep w = [LF] \<longrightarrow>
          patch_files [file] w = (w, None))
   \<and> (disk w file = Some (Text (write_newlines [CR, LF] t)) \<and> readable w file \<and> writable w file
        \<and> no_match t \<and> CR \<notin> set t \<and> linesep w = [CR, LF] \<longrightarrow>
          patch_files [file] w = (w, None))
   \<and> (disk w file = Some (Text t) \<and> readable w file \<and> writable w file
        \<and> no_match (universal_newlines t) \<and> (linesep w = [LF] \<or> linesep w = [CR, LF]) \<longrightarrow>
          read_text (fst (patch_files [file] w)) file = read_text w file)"
proof (intro conjI impI)
  show "fix_content content = content" if "no_match content"
    using that by (rule no_match_fix)
next
  assume a: "disk w file = Some (Text t) \<and> readable w file \<and> no_match (universal_newlines t)"
  then have f: "fix_content (universal_newlines t) = universal_newlines t"
    by (simp add: no_match_fix)
  show "patch_files [file] w =
      (w\<lparr>disk := (disk w)(file \<mapsto> Text (write_newlines (linesep w) (universal_newlines t)))\<rparr>, None)"
    if "writable w file"
    unfolding patch_files_Cons using a that by (simp add: written_back_def f)
  show "patch_files [file] w = (w, Some PermissionError)" if "\<not> writable w file"
    unfolding patch_files_Cons using a that by simp
next
  assume a: "disk w file = Some (Text t) \<and> readable w file \<and> writable w file \<and> no_match t
        \<and> CR \<notin> set t \<and> linesep w = [LF]"
  then have u: "universal_newlines t = t" by (simp add: universal_newlines_id)
  have "written_back (linesep w) t = t"
    using a by (simp add: written_back_def u no_match_fix write_newlines_LF)
  then have "patch_files [file] w = (w\<lparr>disk := (disk w)(file \<mapsto> Text t)\<rparr>, None)"
    using patch_files_one[of w "file" t] a by simp
  then show "patch_files [file] w = (w, None)"
    using a by (simp add: world_same)
next
  assume a: "disk w file = Some (Text (write_newlines [CR, LF] t)) \<and> readable w file
        \<and> writable w file \<and> no_match t \<and> CR \<notin> set t \<and> linesep w = [CR, LF]"
  then have u: "universal_newlines (write_newlines [CR, LF] t) = t"
    by (simp add: universal_write_crlf)
  have "written_back (linesep w) (write_newlines [CR, LF] t) = write_newlines [CR, LF] t"
    using a by (simp add: written_back_def u no_match_fix)
  then have "patch_files [file] w =
      (w\<lparr>disk := (disk w)(file \<mapsto> Text (write_newlines [CR, LF] t))\<rparr>, None)"
    using patch_files_one[of w "file" "write_newlines [CR, LF] t"] a by simp
  then show "patch_files [file] w = (w, None)"
    using a by (simp add: world_same)
next
  assume a: "disk w file = Some (Text t) \<and> readable w file \<and> writable w file
        \<and> no_match (universal_newlines t) \<and> (linesep w = [LF] \<or> linesep w = [CR, LF])"
  define u where "u = universal_newlines t"
  have n: "CR \<notin> set u" unfolding u_def by (rule universal_newlines_no_CR)
  have wb: "written_back (linesep w) t = write_newlines (linesep w) u"
    using a by (simp add: written_back_def u_def no_match_fix)
  have rt: "universal_newlines (write_newlines (linesep w) u) = u"
    using a n by (auto simp: write_newlines_LF universal_newlines_id universal_write_crlf)
  have p: "patch_files [file] w =
      (w\<lparr>disk := (disk w)(file \<mapsto> Text (write_newlines (linesep w) u))\<rparr>, None)"
    using patch_files_one[of w "file" t] a wb by simp
  have r: "read_text w file = Inr u"
    using a by (simp add: read_text_def u_def)
  show "read_text (fst (patch_files [file] w)) file = read_text w file"
    unfolding p r using a rt by (simp add: read_text_def)
qed

theorem no_match_no_op_witness:
  "no_match ''a&level=1''
   \<and> fix_content ''a&level=1'' = ''a&level=1''
   \<and> disk crlf_world ''TapoPlugOperations.cs'' = Some (Text ''c'')
   \<and> readable crlf_world ''TapoPlugOperations.cs'' \<and> writable crlf_world ''TapoPlugOperations.cs''
   \<and> no_match ''c'' \<and> CR \<notin> set ''c'' \<and> linesep crlf_world = [LF]
   \<and> patch_files [''TapoPlugOperations.cs''] crlf_world = (crlf_world, None)
   \<and> disk crlf_world ''TapoLightStripOperations.cs'' = Some (Text (''a'' @ [CR, LF] @ ''b''))
   \<and> no_match (universal_newlines (''a'' @ [CR, LF] @ ''b''))
   \<and> read_text crlf_world ''TapoLightStripOperations.cs'' = Inr (''a'' @ [LF] @ ''b'')
   \<and> read_text (fst (patch_files [''TapoLightStripOperations.cs''] crlf_world))
        ''TapoLightStripOperations.cs'' = Inr (''a'' @ [LF] @ ''b'')"
proof -
  have n: "no_match ''a&level=1''" by code_simp
  have h: "disk crlf_world ''TapoPlugOperations.cs'' = Some (Text ''c'')"
    "readable crlf_world ''TapoPlugOperations.cs''" "writable crlf_world ''TapoPlugOperations.cs''"
    by (simp_all add: crlf_world_def)
  have m: "no_match ''c''" by code_simp
  have c: "CR \<notin> set ''c''" by simp
  have l: "linesep crlf_world = [LF]" by (simp add: crlf_world_def)
  from no_match_no_op[of "''a&level=1''" crlf_world "''TapoPlugOperations.cs''" "''c''"] n h m c l
  have f: "fix_content ''a&level=1'' = ''a&level=1''"
    and p: "patch_files [''TapoPlugOperations.cs''] crlf_world = (crlf_world, None)"
    by blast+
  have h1: "disk crlf_world ''TapoLightStripOperations.cs'' = Some (Text (''a'' @ [CR, LF] @ ''b''))"
    "readable crlf_world ''TapoLightStripOperations.cs''"
    "writable crlf_world ''TapoLightStripOperations.cs''"
    by (simp_all add: crlf_world_def)
  have m1: "no_match (universal_newlines (''a'' @ [CR, LF] @ ''b''))" by code_simp
  have r: "read_text crlf_world ''TapoLightStripOperations.cs'' = Inr (''a'' @ [LF] @ ''b'')"
    by (simp add: read_text_def crlf_world_def)
  from no_match_no_op[of "[]" crlf_world "''TapoLightStripOperations.cs''" "''a'' @ [CR, LF] @ ''b''"]
    h1 m1 l
  have "read_text (fst (patch_files [''TapoLightStripOperations.cs''] crlf_world))
        ''TapoLightStripOperations.cs'' = read_text crlf_world ''TapoLightStripOperations.cs''"
    by blast
  then have r': "read_text (fst (patch_files [''TapoLightStripOperations.cs''] crlf_world))
        ''TapoLightStripOperations.cs'' = Inr (''a'' @ [LF] @ ''b'')"
    unfolding r .
  show ?thesis using n f h m c l p h1(1) m1 r r' by (intro conjI)
qed

section \<open>Two calls before the same double quote\<close>

text \<open>
  C1 fails on the code: a second run of the five rules changes the text again. The
  greedy \<^verbatim>\<open>[^"]+\<close> of rule 5 reaches over the first call to the last
  \<^verbatim>\<open>&start_date=\<close> before the next double quote, so the first run rewrites the second
  call only, and the second run then rewrites the first.
\<close>

theorem second_run_changes:
  "fix_content ''p1/get-a&start_date=1 p2/get-b&start_date=2''
     = ''p1/get-a&start_date=1 p2/get-b?start_date=2''
   \<and> fix_content (fix_content ''p1/get-a&start_date=1 p2/get-b&start_date=2'')
     = ''p1/get-a?start_date=1 p2/get-b?start_date=2''
   \<and> fix_content (fix_content ''p1/get-a&start_date=1 p2/get-b&start_date=2'')
     \<noteq> fix_content ''p1/get-a&start_date=1 p2/get-b&start_date=2''"
proof -
  have 1: "fix_content ''p1/get-a&start_date=1 p2/get-b&start_date=2''
     = ''p1/get-a&start_date=1 p2/get-b?start_date=2''" by code_simp
  have 2: "fix_content ''p1/get-a&start_date=1 p2/get-b?start_date=2''
     = ''p1/get-a?start_date=1 p2/get-b?start_date=2''" by code_simp
  show ?thesis unfolding 1 2 by simp
qed

text \<open>
  C5 fails on the code for rule 5: of two separate calls with no double quote between
  them only the last has its ampersand rewritten, although each call is rewritten when
  it stands alone. For the four light-strip rules, and for calls of rule 5 that a double
  quote separates, both are rewritten.
\<close>

theorem start_date_call_skipped:
  "re_sub rule_start_date repl12 ''p1/get-a&start_date=1 p2/get-b&start_date=2''
     = ''p1/get-a&start_date=1 p2/get-b?start_date=2''
   \<and> re_search rule_start_date ''p1/get-a&start_date=1''
   \<and> re_sub rule_start_date repl12 ''p1/get-a&start_date=1'' = ''p1/get-a?start_date=1''
   \<and> re_search rule_start_date '' p2/get-b&start_date=2''
   \<and> re_sub rule_start_date repl12 '' p2/get-b&start_date=2'' = '' p2/get-b?start_date=2''
   \<and> re_sub rule_hue repl12 ''l91/set-hue-saturation&hue=1 l92/set-hue-saturation&hue=2''
     = ''l91/set-hue-saturation?hue=1 l92/set-hue-saturation?hue=2''"
proof -
  have 1: "re_sub rule_start_date repl12 ''p1/get-a&start_date=1 p2/get-b&start_date=2''
     = ''p1/get-a&start_date=1 p2/get-b?start_date=2''" by code_simp
  have 2: "re_search rule_start_date ''p1/get-a&start_date=1''" by code_simp
  have 3: "re_sub rule_start_date repl12 ''p1/get-a&start_date=1'' = ''p1/get-a?start_date=1''"
    by code_simp
  have 4: "re_search rule_start_date '' p2/get-b&start_date=2''" by code_simp
  have 5: "re_sub rule_start_date repl12 '' p2/get-b&start_date=2'' = '' p2/get-b?start_date=2''"
    by code_simp
  have 6: "re_sub rule_hue repl12 ''l91/set-hue-saturation&hue=1 l92/set-hue-saturation&hue=2''
     = ''l91/set-hue-saturation?hue=1 l92/set-hue-saturation?hue=2''" by code_simp
  show ?thesis using 1 2 3 4 5 6 by (intro conjI)
qed

end
